theory Spec2Isabelle
  imports Main
begin

unbundle bit_operations_syntax

section \<open>JavaScript values and objects\<close>

text \<open>
  The values that flow through \<^verbatim>\<open>src/utils/SyncCommands.ts\<close> without being inspected
  (option entries of a command module, rejection reasons of a promise) are kept as
  JavaScript values. An object is the list of its own fields in insertion order; an
  \<^verbatim>\<open>Error\<close> is kept by its message, a function by an opaque handle.
\<close>

datatype jsval =
    JUndefined
  | JNull
  | JBool bool
  | JNum int
  | JStr string
  | JFunc nat
  | JError string
  | JArr "jsval list"
  | JObj "(string \<times> jsval) list"

type_synonym js_object = "(string \<times> jsval) list"

text \<open>JavaScript's truthiness, as the conditional \<^verbatim>\<open>el.autocomplete ? ... : ...\<close> reads it.\<close>

fun truthy :: "jsval \<Rightarrow> bool" where
  "truthy JUndefined = False"
| "truthy JNull = False"
| "truthy (JBool b) = b"
| "truthy (JNum n) = (n \<noteq> 0)"
| "truthy (JStr s) = (s \<noteq> [])"
| "truthy (JFunc h) = True"
| "truthy (JError s) = True"
| "truthy (JArr vs) = True"
| "truthy (JObj fs) = True"

text \<open>Property access \<^verbatim>\<open>obj.k\<close>: \<^verbatim>\<open>undefined\<close> for a field the object does not have.\<close>

definition get_field :: "js_object \<Rightarrow> string \<Rightarrow> jsval" where
  "get_field obj k = (case map_of obj k of None \<Rightarrow> JUndefined | Some v \<Rightarrow> v)"

text \<open>
  The rest pattern \<^verbatim>\<open>({ k, ...el }) => el\<close>: a copy of the object without the field
  \<^verbatim>\<open>k\<close>, the other fields in their order.
\<close>

definition omit_field :: "string \<Rightarrow> js_object \<Rightarrow> js_object" where
  "omit_field k obj = filter (\<lambda>kv. fst kv \<noteq> k) obj"

text \<open>The nullish coalescing operator \<^verbatim>\<open>a ?? b\<close> on values and on optional fields.\<close>

definition nullish :: "jsval \<Rightarrow> bool" where
  "nullish v = (v = JUndefined \<or> v = JNull)"

definition coalesce :: "jsval \<Rightarrow> jsval \<Rightarrow> jsval" where
  "coalesce a b = (if nullish a then b else a)"

definition or_else :: "'a option \<Rightarrow> 'a \<Rightarrow> 'a" where
  "or_else a b = (case a of None \<Rightarrow> b | Some x \<Rightarrow> x)"

section \<open>Command modules\<close>

text \<open>
  The enumeration \<^verbatim>\<open>CommandType\<close> is imported from the library \<^verbatim>\<open>@sern/handler\<close>; it is
  a set of bit flags (\<^verbatim>\<open>Both\<close> is \<^verbatim>\<open>Text | Slash\<close>). The values are the library's.
  JavaScript's bitwise operators work on the 32-bit two's complement of their operands;
  the mask used below has bits 1 to 3 only, where unbounded integers agree with it.
\<close>

definition CommandType_Text :: int where "CommandType_Text = 1"
definition CommandType_Slash :: int where "CommandType_Slash = 2"
definition CommandType_Both :: int where "CommandType_Both = 3"
definition CommandType_CtxUser :: int where "CommandType_CtxUser = 4"
definition CommandType_CtxMsg :: int where "CommandType_CtxMsg = 8"
definition CommandType_Button :: int where "CommandType_Button = 16"
definition CommandType_StringSelect :: int where "CommandType_StringSelect = 32"
definition CommandType_Modal :: int where "CommandType_Modal = 64"
definition CommandType_ChannelSelect :: int where "CommandType_ChannelSelect = 256"
definition CommandType_MentionableSelect :: int where "CommandType_MentionableSelect = 512"
definition CommandType_RoleSelect :: int where "CommandType_RoleSelect = 1024"
definition CommandType_UserSelect :: int where "CommandType_UserSelect = 2048"

definition CommandType_values :: "int list" where
  "CommandType_values =
     [CommandType_Text, CommandType_Slash, CommandType_Both, CommandType_CtxUser,
      CommandType_CtxMsg, CommandType_Button, CommandType_StringSelect, CommandType_Modal,
      CommandType_ChannelSelect, CommandType_MentionableSelect, CommandType_RoleSelect,
      CommandType_UserSelect]"

text \<open>
  A command module as the syncer reads it: the optional \<^verbatim>\<open>name\<close> and
  \<^verbatim>\<open>description\<close>, the numeric \<^verbatim>\<open>type\<close> and the optional \<^verbatim>\<open>options\<close> array.
\<close>

record command_module =
  m_name :: "string option"
  m_description :: "string option"
  m_type :: int
  m_options :: "js_object list option"

text \<open>\<^verbatim>\<open>ApplicationCommandType\<close> of discord.js.\<close>

datatype application_command_type = ChatInput | User | Message

text \<open>
  The object passed to \<^verbatim>\<open>commands.create\<close> and to \<^verbatim>\<open>registeredCommand.edit\<close>; a field
  holding \<^verbatim>\<open>undefined\<close> is \<open>None\<close>.
\<close>

record command_data =
  d_name :: "string option"
  d_description :: "string option"
  d_type :: application_command_type
  d_options :: "js_object list option"

section \<open>The remote registry and the log\<close>

text \<open>
  A registered command. \<open>e_guild\<close> is the guild whose registry the command object
  belongs to, \<open>None\<close> for the application's global registry.
\<close>

record remote_entry =
  e_id :: nat
  e_guild :: "string option"
  e_name :: string
  e_description :: string
  e_type :: application_command_type
  e_options :: "js_object list option"

record guild =
  g_id :: string
  g_name :: string
  g_commands :: "remote_entry list"

datatype call =
    GuildsFetch string
  | CommandsFetch "string option"
  | CommandsCreate "string option" command_data
  | CommandEdit "string option" nat command_data

datatype log_entry = LogDebug string | LogInfo string | LogError jsval

text \<open>
  Everything outside the process: the registries, the remote calls issued so far and the
  lines handed to the logger, both in order.
\<close>

record world =
  app_commands :: "remote_entry list"
  guilds :: "guild list"
  next_id :: nat
  calls :: "call list"
  logs :: "log_entry list"

text \<open>
  Whether the remote rejects a call, and with which reason, is a function of the calls
  issued before it and of the call itself.
\<close>

type_synonym faults = "call list \<Rightarrow> call \<Rightarrow> jsval option"

type_synonym 'a async = "world \<Rightarrow> (jsval + 'a) \<times> world"

text \<open>\<^verbatim>\<open>await f; g\<close>: a rejection of \<open>f\<close> skips \<open>g\<close>.\<close>

definition await :: "'a async \<Rightarrow> ('a \<Rightarrow> 'b async) \<Rightarrow> 'b async" where
  "await f g w = (case f w of (Inl e, w') \<Rightarrow> (Inl e, w') | (Inr x, w') \<Rightarrow> g x w')"

definition resolved :: "'a \<Rightarrow> 'a async" where
  "resolved x w = (Inr x, w)"

definition rejected :: "jsval \<Rightarrow> 'a async" where
  "rejected e w = (Inl e, w)"

definition log_line :: "log_entry \<Rightarrow> unit async" where
  "log_line l w = (Inr (), w\<lparr>logs := logs w @ [l]\<rparr>)"

definition registry :: "string option \<Rightarrow> world \<Rightarrow> remote_entry list option" where
  "registry tgt w =
     (case tgt of
        None \<Rightarrow> Some (app_commands w)
      | Some gid \<Rightarrow> map_option g_commands (find (\<lambda>g. g_id g = gid) (guilds w)))"

definition set_registry :: "string option \<Rightarrow> remote_entry list \<Rightarrow> world \<Rightarrow> world" where
  "set_registry tgt es w =
     (case tgt of
        None \<Rightarrow> w\<lparr>app_commands := es\<rparr>
      | Some gid \<Rightarrow>
          w\<lparr>guilds := map (\<lambda>g. if g_id g = gid then g\<lparr>g_commands := es\<rparr> else g) (guilds w)\<rparr>)"

text \<open>Every remote call is recorded, then rejected or answered.\<close>

definition remote_call :: "faults \<Rightarrow> call \<Rightarrow> unit async" where
  "remote_call flt c w =
     (case flt (calls w) c of
        Some e \<Rightarrow> (Inl e, w\<lparr>calls := calls w @ [c]\<rparr>)
      | None \<Rightarrow> (Inr (), w\<lparr>calls := calls w @ [c]\<rparr>))"

text \<open>\<^verbatim>\<open>client.guilds.fetch(guildId)\<close>: rejects for a guild the client cannot reach.\<close>

definition guilds_fetch :: "faults \<Rightarrow> string \<Rightarrow> guild async" where
  "guilds_fetch flt gid =
     await (remote_call flt (GuildsFetch gid)) (\<lambda>_ w.
       case find (\<lambda>g. g_id g = gid) (guilds w) of
         None \<Rightarrow> (Inl (JError ''Unknown Guild''), w)
       | Some g \<Rightarrow> (Inr g, w))"

text \<open>
  \<^verbatim>\<open>commands.fetch()\<close>: the full entry set of one registry. The command objects it
  returns are bound to the registry they were fetched from.
\<close>

definition commands_fetch :: "faults \<Rightarrow> string option \<Rightarrow> remote_entry list async" where
  "commands_fetch flt tgt =
     await (remote_call flt (CommandsFetch tgt)) (\<lambda>_ w.
       case registry tgt w of
         None \<Rightarrow> (Inl (JError ''Unknown Guild''), w)
       | Some es \<Rightarrow> (Inr (map (\<lambda>e. e\<lparr>e_guild := tgt\<rparr>) es), w))"

text \<open>
  \<^verbatim>\<open>commands.create(data)\<close>: a new entry under a fresh id. The remote refuses a command
  without a name or a description.
\<close>

definition commands_create :: "faults \<Rightarrow> string option \<Rightarrow> command_data \<Rightarrow> unit async" where
  "commands_create flt tgt data =
     await (remote_call flt (CommandsCreate tgt data)) (\<lambda>_ w.
       case (d_name data, d_description data, registry tgt w) of
         (Some n, Some d, Some es) \<Rightarrow>
           (Inr (),
            set_registry tgt
              (es @ [\<lparr>e_id = next_id w, e_guild = tgt, e_name = n, e_description = d,
                      e_type = d_type data, e_options = d_options data\<rparr>])
              (w\<lparr>next_id := Suc (next_id w)\<rparr>))
       | _ \<Rightarrow> (Inl (JError ''Invalid Form Body''), w))"

text \<open>
  \<^verbatim>\<open>registeredCommand.edit(data)\<close>: the entry with that id, in the registry that holds
  it, takes the fields that are present; a field that is \<^verbatim>\<open>undefined\<close> is left as it is.
\<close>

definition apply_edit :: "command_data \<Rightarrow> remote_entry \<Rightarrow> remote_entry" where
  "apply_edit data e =
     e\<lparr>e_name := or_else (d_name data) (e_name e),
       e_description := or_else (d_description data) (e_description e),
       e_type := d_type data,
       e_options := (case d_options data of None \<Rightarrow> e_options e | Some os \<Rightarrow> Some os)\<rparr>"

definition command_edit :: "faults \<Rightarrow> remote_entry \<Rightarrow> command_data \<Rightarrow> unit async" where
  "command_edit flt registeredCommand data =
     await (remote_call flt (CommandEdit (e_guild registeredCommand) (e_id registeredCommand) data))
       (\<lambda>_ w.
          case registry (e_guild registeredCommand) w of
            None \<Rightarrow> (Inl (JError ''Unknown Guild''), w)
          | Some es \<Rightarrow>
              (Inr (),
               set_registry (e_guild registeredCommand)
                 (map (\<lambda>e. if e_id e = e_id registeredCommand then apply_edit data e else e) es)
                 w))"

section \<open>Discovery of the command files\<close>

text \<open>
  What \<^verbatim>\<open>readdir(dir, { withFileTypes: true })\<close> finds: files, directories with their
  own entries, and directories whose listing is rejected.
\<close>

datatype dirent =
    FileEnt string
  | DirEnt string "dirent list"
  | BadDir string jsval

text \<open>
  \<^verbatim>\<open>path.resolve(dir, name)\<close> for the name of a directory entry: a relative directory is
  taken from the working directory, and the root directory takes no second slash.
\<close>

definition path_join :: "string \<Rightarrow> string \<Rightarrow> string" where
  "path_join base n = (if base = ''/'' then ''/'' @ n else base @ ''/'' @ n)"

definition path_resolve :: "string \<Rightarrow> string \<Rightarrow> string \<Rightarrow> string" where
  "path_resolve cwd dir n =
     path_join (if dir \<noteq> [] \<and> hd dir = CHR ''/'' then dir else path_join cwd dir) n"

text \<open>
  The asynchronous generator \<^verbatim>\<open>getFiles\<close>: the paths it yields, depth first, and the
  rejection that ends it, if any. The first argument lists the entries of \<open>dir\<close>.
\<close>

fun getFiles :: "string \<Rightarrow> dirent list \<Rightarrow> string \<Rightarrow> string list \<times> jsval option" where
  "getFiles cwd [] dir = ([], None)"
| "getFiles cwd (FileEnt n # rest) dir =
     (case getFiles cwd rest dir of (ps, e) \<Rightarrow> (path_resolve cwd dir n # ps, e))"
| "getFiles cwd (DirEnt n sub # rest) dir =
     (case getFiles cwd sub (path_resolve cwd dir n) of
        (ps, Some e) \<Rightarrow> (ps, Some e)
      | (ps, None) \<Rightarrow> (case getFiles cwd rest dir of (qs, e) \<Rightarrow> (ps @ qs, e)))"
| "getFiles cwd (BadDir n r # rest) dir = ([], Some r)"

text \<open>
  \<^verbatim>\<open>basename\<close> of discord.js without an extension argument: the last component of the
  path, up to a question mark.
\<close>

definition path_base :: "string \<Rightarrow> string" where
  "path_base p =
     rev (takeWhile (\<lambda>c. c \<noteq> CHR ''/'') (dropWhile (\<lambda>c. c = CHR ''/'') (rev p)))"

definition basename :: "string \<Rightarrow> string" where
  "basename p = takeWhile (\<lambda>c. c \<noteq> CHR ''?'') (path_base p)"

text \<open>\<^verbatim>\<open>s.slice(0, -3)\<close>: all but the last three characters, empty for a shorter string.\<close>

definition slice_0_minus3 :: "string \<Rightarrow> string" where
  "slice_0_minus3 s = take (length s - 3) s"

section \<open>The command syncer\<close>

definition commandsPath :: string where
  "commandsPath = ''dist/src/commands''"

definition debug :: "string \<Rightarrow> unit async" where
  "debug message = log_line (LogDebug message)"

definition publishable :: "command_module \<Rightarrow> bool" where
  "publishable m =
     (let publishableTypes =
            CommandType_Both OR CommandType_CtxUser OR CommandType_CtxMsg OR CommandType_Slash
      in ((publishableTypes AND NOT CommandType_Text) AND m_type m) \<noteq> 0)"

definition optionsTransformer :: "command_module \<Rightarrow> js_object list option" where
  "optionsTransformer m =
     (if m_type m = CommandType_Slash \<or> m_type m = CommandType_Both
      then Some (case m_options m of
                   None \<Rightarrow> []
                 | Some opts \<Rightarrow>
                     map (\<lambda>el. if truthy (get_field el ''autocomplete'')
                               then omit_field ''command'' el else el) opts)
      else None)"

definition updateCommand :: "faults \<Rightarrow> remote_entry \<Rightarrow> command_module \<Rightarrow> string \<Rightarrow> unit async" where
  "updateCommand flt registeredCommand m resolvedName =
     await (command_edit flt registeredCommand
              \<lparr>d_name = m_name m,
               d_description = m_description m,
               d_type = ChatInput,
               d_options = optionsTransformer m\<rparr>)
       (\<lambda>_. debug (''Command '' @ resolvedName @ '' updated''))"

definition registerGlobalCommand :: "faults \<Rightarrow> string \<Rightarrow> command_module \<Rightarrow> unit async" where
  "registerGlobalCommand flt resolvedName m =
     await (commands_create flt None
              \<lparr>d_name = Some resolvedName,
               d_description = Some (or_else (m_description m) ''..''),
               d_type = ChatInput,
               d_options = optionsTransformer m\<rparr>)
       (\<lambda>_. debug (''Global command '' @ resolvedName @ '' created.''))"

definition registerGuildCommand :: "faults \<Rightarrow> guild \<Rightarrow> string \<Rightarrow> command_module \<Rightarrow> unit async" where
  "registerGuildCommand flt g resolvedName m =
     await (commands_create flt (Some (g_id g))
              \<lparr>d_name = Some resolvedName,
               d_description = Some (or_else (m_description m) ''..''),
               d_type = ChatInput,
               d_options = optionsTransformer m\<rparr>)
       (\<lambda>_. debug (''Command '' @ resolvedName @ '' registered to guild '' @ g_name g
                     @ '' ('' @ g_id g @ '')''))"

definition handleGlobalCommand :: "faults \<Rightarrow> string \<Rightarrow> command_module \<Rightarrow> unit async" where
  "handleGlobalCommand flt resolvedName m =
     await (debug ''Fetching (or retrieving from cache, if available) global commands.'') (\<lambda>_.
     await (commands_fetch flt None) (\<lambda>commands.
       case find (\<lambda>e. e_name e = resolvedName) commands of
         Some registeredCommand \<Rightarrow>
           await (debug (''Updating global '' @ resolvedName @ '' command.'')) (\<lambda>_.
             updateCommand flt registeredCommand m resolvedName)
       | None \<Rightarrow>
           await (debug (''Registering global command '' @ resolvedName @ ''.'')) (\<lambda>_.
             registerGlobalCommand flt resolvedName m)))"

text \<open>
  One turn of the loop of \<^verbatim>\<open>handleScopedGuildsCommand\<close>. A rejected
  \<^verbatim>\<open>guilds.fetch\<close> is turned into \<^verbatim>\<open>null\<close> by its \<^verbatim>\<open>catch\<close>, and \<^verbatim>\<open>null\<close> into the
  thrown \<^verbatim>\<open>Error\<close>.
\<close>

definition handleScopedGuild :: "faults \<Rightarrow> string \<Rightarrow> command_module \<Rightarrow> string \<Rightarrow> unit async" where
  "handleScopedGuild flt resolvedName m guildId w =
     (case guilds_fetch flt guildId w of
        (Inl _, w') \<Rightarrow> (Inl (JError (''Found no Guild with id '' @ guildId @ ''!'')), w')
      | (Inr g, w') \<Rightarrow>
          await (debug (''Fetching (or retrieving from cache, if available) guild '' @ g_name g
                        @ '' ('' @ g_id g @ '') commands...'')) (\<lambda>_.
          await (commands_fetch flt (Some (g_id g))) (\<lambda>commands.
            case find (\<lambda>e. e_name e = resolvedName) commands of
              Some registeredCommand \<Rightarrow>
                await (debug (''Updating command '' @ resolvedName @ ''...'')) (\<lambda>_.
                  updateCommand flt registeredCommand m resolvedName)
            | None \<Rightarrow>
                await (debug (''Registering '' @ resolvedName @ '' command.'')) (\<lambda>_.
                  registerGuildCommand flt g resolvedName m))) w')"

fun handleScopedGuildsCommand ::
  "faults \<Rightarrow> string list \<Rightarrow> string \<Rightarrow> command_module \<Rightarrow> unit async" where
  "handleScopedGuildsCommand flt [] resolvedName m = resolved ()"
| "handleScopedGuildsCommand flt (guildId # rest) resolvedName m =
     await (handleScopedGuild flt resolvedName m guildId) (\<lambda>_.
       handleScopedGuildsCommand flt rest resolvedName m)"

definition handleCommand :: "faults \<Rightarrow> string list \<Rightarrow> command_module \<Rightarrow> string \<Rightarrow> unit async" where
  "handleCommand flt scopedGuilds m resolvedName =
     await (debug (''Checking if '' @ resolvedName @ '' is already registered'')) (\<lambda>_.
       if length scopedGuilds \<noteq> 0
       then handleScopedGuildsCommand flt scopedGuilds resolvedName m
       else handleGlobalCommand flt resolvedName m)"

text \<open>
  \<^verbatim>\<open>module.name ?? basename(path).slice(0, -3)\<close>, the name a module is looked up and
  registered under.
\<close>

definition resolveName :: "command_module \<Rightarrow> string \<Rightarrow> string" where
  "resolveName m path = or_else (m_name m) (slice_0_minus3 (basename path))"

text \<open>
  The dynamic \<^verbatim>\<open>import\<close> of a command file, by its URL: the default export, or the
  rejection (a file that fails to load, or one without a usable default export).
\<close>

type_synonym loader = "string \<Rightarrow> jsval + command_module"

definition import_default :: "loader \<Rightarrow> string \<Rightarrow> command_module async" where
  "import_default ld url w = (ld url, w)"

text \<open>The body of the loop of \<^verbatim>\<open>sync\<close>, over the paths the generator yields.\<close>

fun sync_files :: "faults \<Rightarrow> loader \<Rightarrow> string list \<Rightarrow> string list \<Rightarrow> unit async" where
  "sync_files flt ld scopedGuilds [] = resolved ()"
| "sync_files flt ld scopedGuilds (path # paths) =
     await (import_default ld (''file:///'' @ path)) (\<lambda>m.
     await (if publishable m
            then handleCommand flt scopedGuilds m (resolveName m path)
            else resolved ()) (\<lambda>_.
       sync_files flt ld scopedGuilds paths))"

text \<open>
  The file system as the walk sees it: the working directory and the entries of the
  commands directory, or the rejection of its listing.
\<close>

record file_system =
  cwd :: string
  commands_dir :: "jsval + dirent list"

definition discovered :: "file_system \<Rightarrow> string list \<times> jsval option" where
  "discovered fs =
     (case commands_dir fs of
        Inl e \<Rightarrow> ([], Some e)
      | Inr ents \<Rightarrow> getFiles (cwd fs) ents commandsPath)"

definition sync :: "faults \<Rightarrow> loader \<Rightarrow> file_system \<Rightarrow> string list \<Rightarrow> unit async" where
  "sync flt ld fs scopedGuilds =
     await (log_line (LogInfo ''Syncing commands'')) (\<lambda>_.
     await (sync_files flt ld scopedGuilds (fst (discovered fs))) (\<lambda>_.
       case snd (discovered fs) of
         Some e \<Rightarrow> rejected e
       | None \<Rightarrow> resolved ()))"

text \<open>
  The constructor: \<^verbatim>\<open>this.sync().catch(e => logger.error(...)).then(() => logger.info(...))\<close>.
  It returns no promise; what is left of the pass is the world it leaves behind.
\<close>

definition CommandSyncer :: "faults \<Rightarrow> loader \<Rightarrow> file_system \<Rightarrow> string list \<Rightarrow> world \<Rightarrow> world" where
  "CommandSyncer flt ld fs scopedGuilds w =
     (case sync flt ld fs scopedGuilds w of
        (Inl e, w') \<Rightarrow>
          snd (await (log_line (LogError (coalesce e (JStr ''Something went wrong with syncing''))))
                 (\<lambda>_. log_line (LogInfo ''Commands synced successfully'')) w')
      | (Inr _, w') \<Rightarrow> snd (log_line (LogInfo ''Commands synced successfully'') w'))"

section \<open>Reading the record of a pass\<close>

text \<open>The calls issued between two worlds of one run.\<close>

definition issued :: "world \<Rightarrow> world \<Rightarrow> call list" where
  "issued w w' = drop (length (calls w)) (calls w')"

fun is_create :: "call \<Rightarrow> bool" where
  "is_create (CommandsCreate t d) = True"
| "is_create c = False"

fun is_edit :: "call \<Rightarrow> bool" where
  "is_edit (CommandEdit t i d) = True"
| "is_edit c = False"

text \<open>
  What a call does to which registry: a fetch of its entry set, or a create or edit
  call. Resolving a guild touches no registry.
\<close>

datatype registry_op = Fetched "string option" | Written "string option"

fun registry_ops :: "call list \<Rightarrow> registry_op list" where
  "registry_ops [] = []"
| "registry_ops (GuildsFetch g # cs) = registry_ops cs"
| "registry_ops (CommandsFetch t # cs) = Fetched t # registry_ops cs"
| "registry_ops (CommandsCreate t d # cs) = Written t # registry_ops cs"
| "registry_ops (CommandEdit t i d # cs) = Written t # registry_ops cs"

text \<open>The registries a pass works on: the global one, or one per scoped guild.\<close>

definition targets :: "string list \<Rightarrow> string option list" where
  "targets scopedGuilds = (if length scopedGuilds \<noteq> 0 then map Some scopedGuilds else [None])"

text \<open>The paths whose module loads and is publishable.\<close>

definition publishable_paths :: "loader \<Rightarrow> string list \<Rightarrow> string list" where
  "publishable_paths ld paths =
     filter (\<lambda>p. case ld (''file:///'' @ p) of Inl e \<Rightarrow> False | Inr m \<Rightarrow> publishable m) paths"

fun is_error :: "log_entry \<Rightarrow> bool" where
  "is_error (LogError e) = True"
| "is_error l = False"

definition entry_names :: "string option \<Rightarrow> world \<Rightarrow> string list" where
  "entry_names tgt w = (case registry tgt w of None \<Rightarrow> [] | Some es \<Rightarrow> map e_name es)"

text \<open>Remote ids are unique within a registry and older than the next one handed out.\<close>

definition ids_ok :: "nat \<Rightarrow> remote_entry list \<Rightarrow> bool" where
  "ids_ok n es = (distinct (map e_id es) \<and> list_all (\<lambda>e. e_id e < n) es)"

definition world_ok :: "world \<Rightarrow> bool" where
  "world_ok w =
     (ids_ok (next_id w) (app_commands w)
      \<and> list_all (\<lambda>g. ids_ok (next_id w) (g_commands g)) (guilds w))"

section \<open>Invariants of a pass\<close>

text \<open>
  The names a pass has to find in the registries, each with its target: one pair per
  publishable definition and target, in the order of the pass.
\<close>

definition required :: "loader \<Rightarrow> string list \<Rightarrow> string list \<Rightarrow> (string option \<times> string) list" where
  "required ld gs paths =
     concat (map (\<lambda>p. case ld (''file:///'' @ p) of
                         Inl e \<Rightarrow> []
                       | Inr m \<Rightarrow> if publishable m
                                 then map (\<lambda>t. (t, resolveName m p)) (targets gs) else [])
               paths)"

text \<open>
  \<open>present R w\<close>: every required name is in its registry. \<open>pass_step R f\<close>: the step
  \<open>f\<close> keeps the remote ids in order and loses no name; when it succeeds the names of
  \<open>R\<close> are present; and when they were present before, it changes no name, issues no
  create call and, if it succeeds, one edit call per pair of \<open>R\<close>.
\<close>

definition present :: "(string option \<times> string) list \<Rightarrow> world \<Rightarrow> bool" where
  "present R w = list_all (\<lambda>tn. snd tn \<in> set (entry_names (fst tn) w)) R"

definition pass_step :: "(string option \<times> string) list \<Rightarrow> unit async \<Rightarrow> bool" where
  "pass_step R f =
     (\<forall>w r w'. f w = (r, w') \<and> world_ok w \<longrightarrow>
        world_ok w'
        \<and> (\<forall>t. set (entry_names t w) \<subseteq> set (entry_names t w'))
        \<and> (r = Inr () \<longrightarrow> present R w')
        \<and> (present R w \<longrightarrow>
             (\<forall>t. entry_names t w' = entry_names t w)
             \<and> (\<exists>cs. calls w' = calls w @ cs \<and> filter is_create cs = []
                   \<and> (r = Inr () \<longrightarrow> length (filter is_edit cs) = length R))))"

text \<open>
  \<open>stops_at_rejected_write flt f\<close>: the step \<open>f\<close> only adds calls, and a create or edit
  call among them that the remote rejects is the last one, its reason the rejection of
  the step.
\<close>

definition stops_at_rejected_write :: "faults \<Rightarrow> 'a async \<Rightarrow> bool" where
  "stops_at_rejected_write flt f =
     (\<forall>w r w'. f w = (r, w') \<longrightarrow>
        (\<exists>cs. calls w' = calls w @ cs
           \<and> (\<forall>i e. i < length cs \<and> (is_create (cs ! i) \<or> is_edit (cs ! i))
                      \<and> flt (calls w @ take i cs) (cs ! i) = Some e \<longrightarrow>
                    r = Inl e \<and> Suc i = length cs)))"

text \<open>\<open>quiet f\<close>: the step \<open>f\<close> hands no error to the logger.\<close>

definition quiet :: "'a async \<Rightarrow> bool" where
  "quiet f = (\<forall>w r w'. f w = (r, w') \<longrightarrow> filter is_error (logs w') = filter is_error (logs w))"

section \<open>Concrete inputs\<close>

definition no_faults :: faults where
  "no_faults h c = None"

definition reject_writes :: faults where
  "reject_writes h c =
     (if is_create c \<or> is_edit c then Some (JError ''Missing Access'') else None)"

definition empty_world :: world where
  "empty_world = \<lparr>app_commands = [], guilds = [], next_id = 0, calls = [], logs = []\<rparr>"

definition world_g2 :: world where
  "world_g2 =
     \<lparr>app_commands = [],
      guilds = [\<lparr>g_id = ''g2'', g_name = ''Two'', g_commands = []\<rparr>],
      next_id = 0, calls = [], logs = []\<rparr>"

definition world_g1_g2 :: world where
  "world_g1_g2 =
     \<lparr>app_commands = [],
      guilds = [\<lparr>g_id = ''g1'', g_name = ''One'', g_commands = []\<rparr>,
                \<lparr>g_id = ''g2'', g_name = ''Two'', g_commands = []\<rparr>],
      next_id = 0, calls = [], logs = []\<rparr>"

definition ping_entry :: remote_entry where
  "ping_entry =
     \<lparr>e_id = 7, e_guild = None, e_name = ''ping'', e_description = ''Replies with pong'',
      e_type = ChatInput, e_options = None\<rparr>"

definition world_ping :: world where
  "world_ping =
     \<lparr>app_commands = [ping_entry], guilds = [], next_id = 8, calls = [], logs = []\<rparr>"

definition ping_module :: command_module where
  "ping_module =
     \<lparr>m_name = None, m_description = None, m_type = CommandType_Slash, m_options = None\<rparr>"

definition ban_module :: command_module where
  "ban_module =
     \<lparr>m_name = Some ''ban'', m_description = Some ''Bans a member'',
      m_type = CommandType_Slash,
      m_options = Some
        [[(''name'', JStr ''member''), (''type'', JNum 6), (''required'', JBool True)],
         [(''name'', JStr ''reason''), (''type'', JNum 3), (''autocomplete'', JBool True),
          (''command'', JFunc 0)]]\<rparr>"

definition report_module :: command_module where
  "report_module =
     \<lparr>m_name = Some ''Report'', m_description = None, m_type = CommandType_CtxMsg,
      m_options = None\<rparr>"

definition prefix_module :: command_module where
  "prefix_module =
     \<lparr>m_name = Some ''eval'', m_description = Some ''Evaluates'', m_type = CommandType_Text,
      m_options = None\<rparr>"

definition stray_handler_module :: command_module where
  "stray_handler_module =
     \<lparr>m_name = Some ''tag'', m_description = Some ''Shows a tag'', m_type = CommandType_Slash,
      m_options = Some [[(''name'', JStr ''query''), (''command'', JFunc 1)]]\<rparr>"

definition commands_fs :: file_system where
  "commands_fs =
     \<lparr>cwd = ''/bot'',
      commands_dir = Inr [FileEnt ''ping.js'', DirEnt ''mod'' [FileEnt ''ban.js'']]\<rparr>"

definition ping_fs :: file_system where
  "ping_fs = \<lparr>cwd = ''/bot'', commands_dir = Inr [FileEnt ''ping.js'']\<rparr>"

definition report_fs :: file_system where
  "report_fs = \<lparr>cwd = ''/bot'', commands_dir = Inr [FileEnt ''report.js'']\<rparr>"

definition commands_loader :: loader where
  "commands_loader url =
     (if url = ''file:////bot/dist/src/commands/ping.js'' then Inr ping_module
      else if url = ''file:////bot/dist/src/commands/mod/ban.js'' then Inr ban_module
      else if url = ''file:////bot/dist/src/commands/report.js'' then Inr report_module
      else if url = ''file:////bot/dist/src/commands/eval.js'' then Inr prefix_module
      else Inl (JError ''Cannot find module''))"

definition unknown_kind_module :: command_module where
  "unknown_kind_module =
     \<lparr>m_name = Some ''mystery'', m_description = None, m_type = 6, m_options = None\<rparr>"

text \<open>
  A pass over the guild \<open>g2\<close> whose writes are all rejected; a remote that rejects the
  second call it ever receives when that is a create call, with two passes in a row; and
  two passes in a row over a known and an unknown guild.
\<close>

definition rejected_pass :: "(jsval + unit) \<times> world" where
  "rejected_pass =
     sync_files reject_writes commands_loader [''g2'']
       [''/bot/dist/src/commands/ping.js'', ''/bot/dist/src/commands/mod/ban.js''] world_g2"

definition flaky_create :: faults where
  "flaky_create h c =
     (if is_create c \<and> length h = 1 then Some (JError ''Missing Access'') else None)"

definition flaky_first :: "(jsval + unit) \<times> world" where
  "flaky_first = sync flaky_create commands_loader ping_fs [] empty_world"

definition flaky_second :: "(jsval + unit) \<times> world" where
  "flaky_second = sync flaky_create commands_loader ping_fs [] (snd flaky_first)"

definition abort_first :: "(jsval + unit) \<times> world" where
  "abort_first = sync no_faults commands_loader commands_fs [''g2'', ''g9''] world_g2"

definition abort_second :: "(jsval + unit) \<times> world" where
  "abort_second = sync no_faults commands_loader commands_fs [''g2'', ''g9''] (snd abort_first)"

text \<open>Two passes in a row over the same files, for the guilds \<open>g1\<close> and \<open>g2\<close>.\<close>

definition first_pass :: world where
  "first_pass = snd (sync no_faults commands_loader commands_fs [''g1'', ''g2''] world_g1_g2)"

definition second_pass :: world where
  "second_pass = snd (sync no_faults commands_loader commands_fs [''g1'', ''g2''] first_pass)"

section \<open>Auxiliary facts\<close>

lemmas CommandType_defs =
  CommandType_Text_def CommandType_Slash_def CommandType_Both_def CommandType_CtxUser_def
  CommandType_CtxMsg_def CommandType_Button_def CommandType_StringSelect_def
  CommandType_Modal_def CommandType_ChannelSelect_def CommandType_MentionableSelect_def
  CommandType_RoleSelect_def CommandType_UserSelect_def

lemma publishable_mask: "publishable m \<longleftrightarrow> (m_type m AND 14) \<noteq> 0"
proof -
  have "((3::int) OR 4 OR 8 OR 2) AND NOT 1 = 14" by simp
  then have "(((3::int) OR 4 OR 8 OR 2) AND NOT 1) AND m_type m = 14 AND m_type m"
    by (rule arg_cong)
  then show ?thesis
    unfolding publishable_def CommandType_defs Let_def by (simp only: and.commute)
qed

lemma sync_files_skip:
  "sync_files flt ld gs paths w =
   sync_files flt ld gs
     (filter (\<lambda>p. case ld (''file:///'' @ p) of Inl e \<Rightarrow> True | Inr m \<Rightarrow> publishable m) paths) w"
proof (induction paths arbitrary: w)
  case Nil
  show ?case by simp
next
  case (Cons p ps)
  show ?case
  proof (cases "ld (''file:///'' @ p)")
    case (Inl e)
    then show ?thesis by (simp add: await_def import_default_def)
  next
    case (Inr m)
    then show ?thesis using Cons.IH
      by (simp add: await_def import_default_def resolved_def split: prod.splits sum.splits)
  qed
qed

lemma omit_field_absent: "map_of (omit_field k obj) k = None"
  by (induction obj) (auto simp: omit_field_def)

lemma omit_field_other: "k' \<noteq> k \<Longrightarrow> map_of (omit_field k obj) k' = map_of obj k'"
  by (induction obj) (auto simp: omit_field_def)

lemma basename_file:
  assumes "CHR ''/'' \<notin> set f" "CHR ''?'' \<notin> set f" "f \<noteq> []"
  shows "basename (dir @ ''/'' @ f) = f"
proof -
  obtain x xs where rf: "rev f = x # xs"
    using assms(3) by (cases "rev f") auto
  then have "x \<in> set f"
    by (metis list.set_intros(1) set_rev)
  then have "x \<noteq> CHR ''/''"
    using assms(1) by auto
  then have "dropWhile (\<lambda>c. c = CHR ''/'') (rev f @ CHR ''/'' # rev dir) = rev f @ CHR ''/'' # rev dir"
    using rf by simp
  moreover have "takeWhile (\<lambda>c. c \<noteq> CHR ''/'') (rev f @ CHR ''/'' # rev dir) = rev f"
    using assms(1) by (auto simp: takeWhile_tail)
  ultimately have "path_base (dir @ ''/'' @ f) = f"
    by (simp add: path_base_def)
  then show ?thesis using assms(2) by (auto simp: basename_def takeWhile_eq_all_conv)
qed

lemma set_registry_fields [simp]:
  "calls (set_registry t es w) = calls w"
  "logs (set_registry t es w) = logs w"
  "next_id (set_registry t es w) = next_id w"
  by (simp_all add: set_registry_def split: option.splits)

lemma registry_fields [simp]:
  "registry t (w\<lparr>calls := cs\<rparr>) = registry t w"
  "registry t (w\<lparr>logs := ls\<rparr>) = registry t w"
  "registry t (w\<lparr>next_id := n\<rparr>) = registry t w"
  by (simp_all add: registry_def split: option.splits)

lemmas prim_defs =
  await_def resolved_def rejected_def log_line_def debug_def remote_call_def
  guilds_fetch_def commands_fetch_def commands_create_def command_edit_def

lemmas handle_defs =
  updateCommand_def registerGlobalCommand_def registerGuildCommand_def
  handleGlobalCommand_def handleScopedGuild_def

lemma registry_ops_append [simp]: "registry_ops (xs @ ys) = registry_ops xs @ registry_ops ys"
  by (induction xs rule: registry_ops.induct) auto

lemma find_guild_id: "find (\<lambda>g. g_id g = gid) gs = Some g \<Longrightarrow> g_id g = gid"
  by (auto simp: find_Some_iff)

lemma find_stamped:
  "find (\<lambda>e. e_name e = n) (map (\<lambda>e. e\<lparr>e_guild := t\<rparr>) es) = Some rc \<Longrightarrow> e_guild rc = t"
  by (auto simp: find_Some_iff)

lemma handleGlobal_calls:
  assumes "handleGlobalCommand flt name m w = (r, w')"
  shows "\<exists>cs. calls w' = calls w @ cs \<and> (r = Inr () \<longrightarrow> registry_ops cs = [Fetched None, Written None])"
  using assms
  by (auto simp: handle_defs prim_defs registry_def dest!: find_stamped
           split: option.splits sum.splits prod.splits if_splits)

lemma handleScopedGuild_calls:
  assumes "handleScopedGuild flt name m gid w = (r, w')"
  shows "\<exists>cs. calls w' = calls w @ cs \<and>
          (r = Inr () \<longrightarrow> registry_ops cs = [Fetched (Some gid), Written (Some gid)])"
  using assms
  by (auto simp: handle_defs prim_defs dest!: find_stamped find_guild_id
           split: option.splits sum.splits prod.splits if_splits)

lemma await_cases:
  assumes "await f g w = (r, w')"
  obtains (rejected) e where "f w = (Inl e, w')" "r = Inl e"
        | (resolved) x w1 where "f w = (Inr x, w1)" "g x w1 = (r, w')"
  using assms by (auto simp: await_def split: prod.splits sum.splits)

lemma handleScopedGuilds_calls:
  assumes "handleScopedGuildsCommand flt gs name m w = (r, w')"
  shows "\<exists>cs. calls w' = calls w @ cs \<and>
          (r = Inr () \<longrightarrow>
             registry_ops cs = concat (map (\<lambda>t. [Fetched t, Written t]) (map Some gs)))"
  using assms
proof (induction gs arbitrary: w)
  case Nil
  then show ?case by (simp add: resolved_def)
next
  case (Cons g gs)
  from Cons.prems have "await (handleScopedGuild flt name m g)
      (\<lambda>_. handleScopedGuildsCommand flt gs name m) w = (r, w')"
    by simp
  then show ?case
  proof (cases rule: await_cases)
    case (rejected e)
    with handleScopedGuild_calls [of flt name m g w "Inl e" w'] show ?thesis by auto
  next
    case (resolved x w1)
    from handleScopedGuild_calls [OF resolved(1)]
    obtain cs1 where cs1: "calls w1 = calls w @ cs1"
      "registry_ops cs1 = [Fetched (Some g), Written (Some g)]" by auto
    from Cons.IH [OF resolved(2)]
    obtain cs2 where cs2: "calls w' = calls w1 @ cs2"
      "r = Inr () \<longrightarrow>
         registry_ops cs2 = concat (map (\<lambda>t. [Fetched t, Written t]) (map Some gs))" by auto
    show ?thesis
      by (rule exI [of _ "cs1 @ cs2"]) (use cs1 cs2 in auto)
  qed
qed

lemma handleCommand_calls:
  assumes "handleCommand flt gs m name w = (r, w')"
  shows "\<exists>cs. calls w' = calls w @ cs \<and>
          (r = Inr () \<longrightarrow>
             registry_ops cs = concat (map (\<lambda>t. [Fetched t, Written t]) (targets gs)))"
proof -
  let ?w1 = "w\<lparr>logs := logs w @ [LogDebug (''Checking if '' @ name @ '' is already registered'')]\<rparr>"
  show ?thesis
  proof (cases "length gs \<noteq> 0")
    case True
    with assms have "handleScopedGuildsCommand flt gs name m ?w1 = (r, w')"
      by (simp add: handleCommand_def await_def debug_def log_line_def)
    from handleScopedGuilds_calls [OF this] True show ?thesis
      by (simp add: targets_def)
  next
    case False
    with assms have "handleGlobalCommand flt name m ?w1 = (r, w')"
      by (simp add: handleCommand_def await_def debug_def log_line_def)
    from handleGlobal_calls [OF this] False show ?thesis
      by (simp add: targets_def)
  qed
qed

lemma sync_files_calls:
  assumes "sync_files flt ld gs paths w = (r, w')"
  shows "\<exists>cs. calls w' = calls w @ cs \<and>
          (r = Inr () \<longrightarrow>
             registry_ops cs =
               concat (map (\<lambda>p. concat (map (\<lambda>t. [Fetched t, Written t]) (targets gs)))
                         (publishable_paths ld paths)))"
  using assms
proof (induction paths arbitrary: w)
  case Nil
  then show ?case by (simp add: resolved_def publishable_paths_def)
next
  case (Cons p ps)
  show ?case
  proof (cases "ld (''file:///'' @ p)")
    case (Inl e)
    with Cons.prems show ?thesis
      by (auto simp: await_def import_default_def)
  next
    case (Inr m)
    show ?thesis
    proof (cases "publishable m")
      case False
      with Inr Cons.prems have "sync_files flt ld gs ps w = (r, w')"
        by (simp add: await_def import_default_def resolved_def)
      from Cons.IH [OF this] Inr False show ?thesis
        by (simp add: publishable_paths_def)
    next
      case True
      with Inr Cons.prems have "await (handleCommand flt gs m (resolveName m p))
          (\<lambda>_. sync_files flt ld gs ps) w = (r, w')"
        by (simp add: await_def import_default_def)
      then show ?thesis
      proof (cases rule: await_cases)
        case (rejected e)
        with handleCommand_calls [of flt gs m "resolveName m p" w "Inl e" w'] show ?thesis
          by auto
      next
        case (resolved x w1)
        from handleCommand_calls [OF resolved(1)]
        obtain cs1 where cs1: "calls w1 = calls w @ cs1"
          "registry_ops cs1 = concat (map (\<lambda>t. [Fetched t, Written t]) (targets gs))" by auto
        from Cons.IH [OF resolved(2)]
        obtain cs2 where cs2: "calls w' = calls w1 @ cs2"
          "r = Inr () \<longrightarrow> registry_ops cs2 =
               concat (map (\<lambda>p. concat (map (\<lambda>t. [Fetched t, Written t]) (targets gs)))
                         (publishable_paths ld ps))" by auto
        show ?thesis
          by (rule exI [of _ "cs1 @ cs2"]) (use cs1 cs2 Inr True in \<open>auto simp: publishable_paths_def\<close>)
      qed
    qed
  qed
qed

lemma sync_calls:
  assumes "sync flt ld fs gs w = (r, w')"
  shows "\<exists>cs. calls w' = calls w @ cs \<and>
          (r = Inr () \<longrightarrow>
             registry_ops cs =
               concat (map (\<lambda>p. concat (map (\<lambda>t. [Fetched t, Written t]) (targets gs)))
                         (publishable_paths ld (fst (discovered fs)))))"
proof -
  let ?w1 = "w\<lparr>logs := logs w @ [LogInfo ''Syncing commands'']\<rparr>"
  from assms have "await (sync_files flt ld gs (fst (discovered fs)))
       (\<lambda>_. case snd (discovered fs) of Some e \<Rightarrow> rejected e | None \<Rightarrow> resolved ()) ?w1 = (r, w')"
    by (simp add: sync_def await_def log_line_def)
  then show ?thesis
  proof (cases rule: await_cases)
    case (rejected e)
    with sync_files_calls [of flt ld gs "fst (discovered fs)" ?w1 "Inl e" w'] show ?thesis
      by auto
  next
    case (resolved x w1)
    then have "w' = w1"
      by (auto simp: rejected_def resolved_def split: option.splits)
    with sync_files_calls [OF resolved(1)] show ?thesis by auto
  qed
qed

lemma issued_append: "calls w' = calls w @ cs \<Longrightarrow> issued w w' = cs"
  by (simp add: issued_def)

lemma sync_files_append:
  "sync_files flt ld gs (xs @ ys) w =
   await (sync_files flt ld gs xs) (\<lambda>_. sync_files flt ld gs ys) w"
proof (induction xs arbitrary: w)
  case Nil
  show ?case by (simp add: await_def resolved_def)
next
  case (Cons x xs)
  show ?case
    by (simp add: await_def Cons.IH split: prod.splits sum.splits)
qed

lemma handleScopedGuild_unknown:
  assumes "registry (Some g) w = None"
  shows "handleScopedGuild flt name m g w =
           (Inl (JError (''Found no Guild with id '' @ g @ ''!'')),
            w\<lparr>calls := calls w @ [GuildsFetch g]\<rparr>)"
  using assms
  by (auto simp: handleScopedGuild_def prim_defs registry_def split: option.splits)

subsection \<open>Registries and remote ids\<close>

lemma find_guild_update:
  "find (\<lambda>g. g_id g = gid') (map (\<lambda>g. if g_id g = gid then g\<lparr>g_commands := es\<rparr> else g) gs) =
     (if gid' = gid then map_option (\<lambda>g. g\<lparr>g_commands := es\<rparr>) (find (\<lambda>g. g_id g = gid) gs)
      else find (\<lambda>g. g_id g = gid') gs)"
  by (induction gs) auto

lemma registry_set_registry:
  "registry t' (set_registry t es w) =
     (if t' = t then map_option (\<lambda>_. es) (registry t w) else registry t' w)"
  by (cases t; cases t')
     (auto simp: registry_def set_registry_def find_guild_update option.map_comp comp_def)

lemma entry_names_fields [simp]:
  "entry_names t (w\<lparr>calls := cs\<rparr>) = entry_names t w"
  "entry_names t (w\<lparr>logs := ls\<rparr>) = entry_names t w"
  "entry_names t (w\<lparr>next_id := n\<rparr>) = entry_names t w"
  by (simp_all add: entry_names_def)

lemma world_ok_fields [simp]:
  "world_ok (w\<lparr>calls := cs\<rparr>) = world_ok w"
  "world_ok (w\<lparr>logs := ls\<rparr>) = world_ok w"
  by (simp_all add: world_ok_def)

lemma ids_ok_mono: "ids_ok n es \<Longrightarrow> n \<le> n' \<Longrightarrow> ids_ok n' es"
  by (auto simp: ids_ok_def list_all_iff)

lemma world_ok_registry:
  assumes "world_ok w" "registry t w = Some es"
  shows "ids_ok (next_id w) es"
proof (cases t)
  case None
  with assms show ?thesis by (simp add: world_ok_def registry_def)
next
  case (Some gid)
  with assms obtain g where "find (\<lambda>g. g_id g = gid) (guilds w) = Some g" "es = g_commands g"
    by (auto simp: registry_def)
  then have "g \<in> set (guilds w)" "es = g_commands g"
    by (auto simp: find_Some_iff)
  with assms(1) show ?thesis by (auto simp: world_ok_def list_all_iff)
qed

lemma world_ok_set_registry:
  assumes "world_ok w" "ids_ok (next_id w) es"
  shows "world_ok (set_registry t es w)"
  using assms by (cases t) (auto simp: world_ok_def set_registry_def list_all_iff)

lemma world_ok_next:
  assumes "world_ok w"
  shows "world_ok (w\<lparr>next_id := Suc (next_id w)\<rparr>)"
  using assms ids_ok_mono [of "next_id w" _ "Suc (next_id w)"]
  by (auto simp: world_ok_def list_all_iff)

lemma ids_ok_append:
  assumes "ids_ok n es" "e_id e = n"
  shows "ids_ok (Suc n) (es @ [e])"
  using assms by (auto simp: ids_ok_def list_all_iff)

lemma apply_edit_id [simp]: "e_id (apply_edit d e) = e_id e"
  by (simp add: apply_edit_def)

lemma apply_edit_name [simp]: "e_name (apply_edit d e) = or_else (d_name d) (e_name e)"
  by (simp add: apply_edit_def)

lemma edit_keeps_ids:
  "map e_id (map (\<lambda>x. if e_id x = i then apply_edit d x else x) es) = map e_id es"
  by (induction es) auto

lemma ids_ok_edit:
  assumes "ids_ok n es"
  shows "ids_ok n (map (\<lambda>x. if e_id x = i then apply_edit d x else x) es)"
proof -
  have "distinct (map e_id (map (\<lambda>x. if e_id x = i then apply_edit d x else x) es))"
    using assms by (simp only: edit_keeps_ids ids_ok_def)
  moreover have "list_all (\<lambda>e. e_id e < n) (map (\<lambda>x. if e_id x = i then apply_edit d x else x) es)"
    using assms by (auto simp: ids_ok_def list_all_iff)
  ultimately show ?thesis by (simp only: ids_ok_def)
qed

lemma edit_keeps_names:
  assumes "distinct (map e_id es)" "e \<in> set es" "or_else (d_name d) (e_name e) = e_name e"
  shows "map e_name (map (\<lambda>x. if e_id x = e_id e then apply_edit d x else x) es) = map e_name es"
proof -
  have "x = e" if "x \<in> set es" "e_id x = e_id e" for x
    using that assms(1,2) by (meson distinct_map inj_onD)
  then have "e_name (if e_id x = e_id e then apply_edit d x else x) = e_name x"
    if "x \<in> set es" for x
    using that assms(3) by auto
  then show ?thesis by (simp add: comp_def cong: map_cong)
qed

subsection \<open>One definition on one target\<close>

lemma entry_names_set_registry:
  "entry_names t' (set_registry t es w) =
     (if t' = t \<and> registry t w \<noteq> None then map e_name es else entry_names t' w)"
  by (auto simp: entry_names_def registry_set_registry split: option.splits)

lemma find_stamped_Some:
  assumes "find (\<lambda>e. e_name e = n) (map (\<lambda>e. e\<lparr>e_guild := t\<rparr>) es) = Some rc"
  shows "e_guild rc = t \<and> (\<exists>e \<in> set es. e_name e = n \<and> e_id e = e_id rc)"
  using assms
proof (induction es)
  case Nil
  then show ?case by simp
next
  case (Cons x xs)
  then show ?case by (cases "e_name x = n") auto
qed

lemma find_stamped_None:
  assumes "find (\<lambda>e. e_name e = n) (map (\<lambda>e. e\<lparr>e_guild := t\<rparr>) es) = None"
  shows "n \<notin> set (map e_name es)"
  using assms by (auto simp: find_None_iff)

text \<open>An edit of an entry found under the resolved name.\<close>

lemma updateCommand_step:
  assumes run: "updateCommand flt rc m name w = (r, w')"
    and ok: "world_ok w"
    and reg: "registry (e_guild rc) w = Some es"
    and mem: "e \<in> set es" "e_id e = e_id rc" "e_name e = name"
    and nm: "or_else (m_name m) name = name"
  shows "world_ok w' \<and> (\<forall>t'. entry_names t' w' = entry_names t' w)
         \<and> (\<exists>c. calls w' = calls w @ [c] \<and> is_edit c)"
proof -
  let ?d = "\<lparr>d_name = m_name m, d_description = m_description m, d_type = ChatInput,
             d_options = optionsTransformer m\<rparr>"
  let ?es' = "map (\<lambda>x. if e_id x = e_id e then apply_edit ?d x else x) es"
  have ids: "ids_ok (next_id w) es"
    using world_ok_registry [OF ok reg] .
  have names: "map e_name ?es' = map e_name es"
    using ids mem nm by (intro edit_keeps_names) (auto simp: ids_ok_def)
  have ids': "ids_ok (next_id w) ?es'"
    using ids by (rule ids_ok_edit)
  have en: "entry_names (e_guild rc) w = map e_name es"
    using reg by (simp add: entry_names_def)
  show ?thesis
    using run ok reg names ids' en mem(2)
    by (auto simp: updateCommand_def prim_defs entry_names_set_registry
                   world_ok_set_registry
             split: option.splits if_splits)
qed

lemma create_step:
  assumes run: "commands_create flt t d w = (r, w')"
    and ok: "world_ok w"
    and nm: "d_name d = Some name"
  shows "world_ok w' \<and> (\<forall>t'. set (entry_names t' w) \<subseteq> set (entry_names t' w'))
         \<and> (r = Inr () \<longrightarrow> name \<in> set (entry_names t w'))
         \<and> logs w' = logs w"
proof (cases "r = Inr ()")
  case False
  with run ok show ?thesis
    by (auto simp: prim_defs split: option.splits if_splits prod.splits)
next
  case True
  with run nm obtain desc es where
    reg: "registry t w = Some es" and
    w': "w' = set_registry t
            (es @ [\<lparr>e_id = next_id w, e_guild = t, e_name = name, e_description = desc,
                     e_type = d_type d, e_options = d_options d\<rparr>])
            (w\<lparr>calls := calls w @ [CommandsCreate t d], next_id := Suc (next_id w)\<rparr>)"
    by (auto simp: prim_defs split: option.splits if_splits prod.splits)
  have "ids_ok (next_id w) es"
    using world_ok_registry [OF ok reg] .
  then have "ids_ok (Suc (next_id w))
      (es @ [\<lparr>e_id = next_id w, e_guild = t, e_name = name, e_description = desc,
                     e_type = d_type d, e_options = d_options d\<rparr>])"
    by (rule ids_ok_append) simp
  moreover have "world_ok (w\<lparr>calls := calls w @ [CommandsCreate t d], next_id := Suc (next_id w)\<rparr>)"
    using world_ok_next [OF ok] by (simp add: world_ok_def)
  ultimately have "world_ok w'"
    unfolding w' by (intro world_ok_set_registry) simp_all
  moreover have "entry_names t w = map e_name es"
    using reg by (simp add: entry_names_def)
  ultimately show ?thesis
    using True reg by (auto simp: w' entry_names_set_registry)
qed

lemma await_debug:
  "await (debug s) f w = f () (w\<lparr>logs := logs w @ [LogDebug s]\<rparr>)"
  by (simp add: await_def debug_def log_line_def)

lemma debug_apply: "debug s w = (Inr (), w\<lparr>logs := logs w @ [LogDebug s]\<rparr>)"
  by (simp add: debug_def log_line_def)

text \<open>
  What both \<^verbatim>\<open>handleGlobalCommand\<close> and the loop of \<^verbatim>\<open>handleScopedGuildsCommand\<close> do
  with the fetched entry set: edit the entry found under the name, or create one.
\<close>

lemma reconcile_tail:
  assumes run:
    "(case find (\<lambda>e. e_name e = name) (map (\<lambda>e. e\<lparr>e_guild := t\<rparr>) es) of
        Some rc \<Rightarrow> await (debug s1) (\<lambda>_. updateCommand flt rc m name)
      | None \<Rightarrow> await (debug s2) (\<lambda>_. await (commands_create flt t d) (\<lambda>_. debug s3))) w
     = (r, w')"
    and ok: "world_ok w"
    and reg: "registry t w = Some es"
    and nm: "or_else (m_name m) name = name"
    and dn: "d_name d = Some name"
  shows "world_ok w'
         \<and> (\<forall>t'. set (entry_names t' w) \<subseteq> set (entry_names t' w'))
         \<and> (r = Inr () \<longrightarrow> name \<in> set (entry_names t w'))
         \<and> (\<exists>c. calls w' = calls w @ [c]
                \<and> (name \<in> set (entry_names t w) \<longrightarrow>
                      is_edit c \<and> (\<forall>t'. entry_names t' w' = entry_names t' w)))"
proof (cases "find (\<lambda>e. e_name e = name) (map (\<lambda>e. e\<lparr>e_guild := t\<rparr>) es)")
  case None
  let ?w1 = "w\<lparr>logs := logs w @ [LogDebug s2]\<rparr>"
  from find_stamped_None [OF None] reg have absent: "name \<notin> set (entry_names t w)"
    by (simp add: entry_names_def)
  from run None have "await (commands_create flt t d) (\<lambda>_. debug s3) ?w1 = (r, w')"
    by (simp add: await_debug)
  then show ?thesis
  proof (cases rule: await_cases)
    case (rejected e)
    from create_step [OF rejected(1) _ dn] ok
    have "world_ok w'" "\<forall>t'. set (entry_names t' w) \<subseteq> set (entry_names t' w')"
      by auto
    moreover from rejected(1) have "calls w' = calls w @ [CommandsCreate t d]"
      by (auto simp: prim_defs split: option.splits if_splits prod.splits)
    ultimately show ?thesis using rejected(2) absent by auto
  next
    case (resolved x w2)
    from create_step [OF resolved(1) _ dn] ok
    have "world_ok w2" "\<forall>t'. set (entry_names t' w) \<subseteq> set (entry_names t' w2)"
      "name \<in> set (entry_names t w2)"
      by auto
    moreover from resolved(1) have "calls w2 = calls w @ [CommandsCreate t d]"
      by (auto simp: prim_defs split: option.splits if_splits prod.splits)
    moreover from resolved(2) have "w' = w2\<lparr>logs := logs w2 @ [LogDebug s3]\<rparr>"
      by (simp add: debug_apply)
    ultimately show ?thesis using absent by auto
  qed
next
  case (Some rc)
  let ?w1 = "w\<lparr>logs := logs w @ [LogDebug s1]\<rparr>"
  from find_stamped_Some [OF Some] obtain e where
    e: "e_guild rc = t" "e \<in> set es" "e_name e = name" "e_id e = e_id rc"
    by auto
  from run Some have upd: "updateCommand flt rc m name ?w1 = (r, w')"
    by (simp add: await_debug)
  have "world_ok ?w1" "registry (e_guild rc) ?w1 = Some es"
    using ok reg e(1) by simp_all
  from updateCommand_step [OF upd this e(2) e(4) e(3) nm]
  have "world_ok w'" "\<forall>t'. entry_names t' w' = entry_names t' w"
    "\<exists>c. calls w' = calls w @ [c] \<and> is_edit c"
    by auto
  moreover have "name \<in> set (entry_names t w)"
    using reg e(2,3) by (auto simp: entry_names_def)
  ultimately show ?thesis by auto
qed

lemma handleGlobal_step:
  assumes run: "handleGlobalCommand flt name m w = (r, w')"
    and ok: "world_ok w"
    and nm: "or_else (m_name m) name = name"
  shows "world_ok w'
         \<and> (\<forall>t'. set (entry_names t' w) \<subseteq> set (entry_names t' w'))
         \<and> (r = Inr () \<longrightarrow> name \<in> set (entry_names None w'))
         \<and> (name \<in> set (entry_names None w) \<longrightarrow>
              (\<forall>t'. entry_names t' w' = entry_names t' w)
              \<and> (\<exists>cs. calls w' = calls w @ cs \<and> filter is_create cs = []
                    \<and> (r = Inr () \<longrightarrow> length (filter is_edit cs) = 1)))"
proof -
  let ?w1 = "w\<lparr>logs := logs w
               @ [LogDebug ''Fetching (or retrieving from cache, if available) global commands.'']\<rparr>"
  let ?w2 = "?w1\<lparr>calls := calls w @ [CommandsFetch None]\<rparr>"
  show ?thesis
  proof (cases "flt (calls w) (CommandsFetch None)")
    case (Some e)
    with run have "r = Inl e" "w' = ?w2"
      by (auto simp: await_debug debug_apply handleGlobalCommand_def commands_fetch_def remote_call_def await_def)
    with ok show ?thesis by simp
  next
    case None
    with run have tail:
      "(case find (\<lambda>e. e_name e = name) (map (\<lambda>e. e\<lparr>e_guild := None\<rparr>) (app_commands w)) of
          Some rc \<Rightarrow> await (debug (''Updating global '' @ name @ '' command.''))
                       (\<lambda>_. updateCommand flt rc m name)
        | None \<Rightarrow> await (debug (''Registering global command '' @ name @ ''.''))
             (\<lambda>_. await (commands_create flt None
                \<lparr>d_name = Some name, d_description = Some (or_else (m_description m) ''..''),
                 d_type = ChatInput, d_options = optionsTransformer m\<rparr>)
                (\<lambda>_. debug (''Global command '' @ name @ '' created.'')))) ?w2 = (r, w')"
      by (simp add: await_debug debug_apply handleGlobalCommand_def commands_fetch_def remote_call_def await_def
                    registry_def registerGlobalCommand_def
               split: option.splits)
    have "world_ok ?w2" "registry None ?w2 = Some (app_commands w)"
      using ok by (simp_all add: registry_def)
    from reconcile_tail [OF tail this nm] obtain c where c:
      "world_ok w'" "\<forall>t'. set (entry_names t' w) \<subseteq> set (entry_names t' w')"
      "r = Inr () \<longrightarrow> name \<in> set (entry_names None w')"
      "calls w' = calls w @ [CommandsFetch None, c]"
      "name \<in> set (entry_names None w) \<longrightarrow>
          is_edit c \<and> (\<forall>t'. entry_names t' w' = entry_names t' w)"
      by auto
    have "\<exists>cs. calls w' = calls w @ cs \<and> filter is_create cs = []
                    \<and> (r = Inr () \<longrightarrow> length (filter is_edit cs) = 1)"
      if "name \<in> set (entry_names None w)"
      by (rule exI [of _ "[CommandsFetch None, c]"]) (use c(4,5) that in \<open>cases c; simp\<close>)
    with c show ?thesis by blast
  qed
qed

lemma handleScopedGuild_step:
  assumes run: "handleScopedGuild flt name m gid w = (r, w')"
    and ok: "world_ok w"
    and nm: "or_else (m_name m) name = name"
  shows "world_ok w'
         \<and> (\<forall>t'. set (entry_names t' w) \<subseteq> set (entry_names t' w'))
         \<and> (r = Inr () \<longrightarrow> name \<in> set (entry_names (Some gid) w'))
         \<and> (name \<in> set (entry_names (Some gid) w) \<longrightarrow>
              (\<forall>t'. entry_names t' w' = entry_names t' w)
              \<and> (\<exists>cs. calls w' = calls w @ cs \<and> filter is_create cs = []
                    \<and> (r = Inr () \<longrightarrow> length (filter is_edit cs) = 1)))"
proof -
  let ?w0 = "w\<lparr>calls := calls w @ [GuildsFetch gid]\<rparr>"
  show ?thesis
  proof (cases "\<exists>g. guilds_fetch flt gid w = (Inr g, ?w0)")
    case False
    with run have "r = Inl (JError (''Found no Guild with id '' @ gid @ ''!''))" "w' = ?w0"
      by (auto simp: await_debug debug_apply handleScopedGuild_def guilds_fetch_def remote_call_def await_def
               split: option.splits)
    with ok show ?thesis by simp
  next
    case True
    then obtain g where g: "guilds_fetch flt gid w = (Inr g, ?w0)" by blast
    then have found: "find (\<lambda>g. g_id g = gid) (guilds w) = Some g"
      by (auto simp: guilds_fetch_def remote_call_def await_def split: option.splits)
    then have gid: "g_id g = gid"
      by (rule find_guild_id)
    have reg: "registry (Some gid) w = Some (g_commands g)"
      using found by (simp add: registry_def)
    let ?w1 = "?w0\<lparr>logs := logs w
        @ [LogDebug (''Fetching (or retrieving from cache, if available) guild '' @ g_name g
                        @ '' ('' @ g_id g @ '') commands...'')]\<rparr>"
    let ?w2 = "?w1\<lparr>calls := calls w @ [GuildsFetch gid, CommandsFetch (Some gid)]\<rparr>"
    show ?thesis
    proof (cases "flt (calls w @ [GuildsFetch gid]) (CommandsFetch (Some gid))")
      case (Some e)
      with run g gid have "r = Inl e" "w' = ?w2"
        by (auto simp: await_debug debug_apply handleScopedGuild_def commands_fetch_def remote_call_def await_def)
      with ok show ?thesis by simp
    next
      case None
      with run g gid reg have tail:
        "(case find (\<lambda>e. e_name e = name)
                 (map (\<lambda>e. e\<lparr>e_guild := Some gid\<rparr>) (g_commands g)) of
            Some rc \<Rightarrow> await (debug (''Updating command '' @ name @ ''...''))
                         (\<lambda>_. updateCommand flt rc m name)
          | None \<Rightarrow> await (debug (''Registering '' @ name @ '' command.''))
               (\<lambda>_. await (commands_create flt (Some gid)
                  \<lparr>d_name = Some name, d_description = Some (or_else (m_description m) ''..''),
                   d_type = ChatInput, d_options = optionsTransformer m\<rparr>)
                  (\<lambda>_. debug (''Command '' @ name @ '' registered to guild '' @ g_name g
                     @ '' ('' @ g_id g @ '')'')))) ?w2 = (r, w')"
        by (simp add: await_debug debug_apply handleScopedGuild_def commands_fetch_def remote_call_def await_def
                      registerGuildCommand_def
                 split: option.splits)
      have "world_ok ?w2" "registry (Some gid) ?w2 = Some (g_commands g)"
        using ok reg by (simp_all add: registry_def)
      from reconcile_tail [OF tail this nm] obtain c where c:
        "world_ok w'" "\<forall>t'. set (entry_names t' w) \<subseteq> set (entry_names t' w')"
        "r = Inr () \<longrightarrow> name \<in> set (entry_names (Some gid) w')"
        "calls w' = calls w @ [GuildsFetch gid, CommandsFetch (Some gid), c]"
        "name \<in> set (entry_names (Some gid) w) \<longrightarrow>
            is_edit c \<and> (\<forall>t'. entry_names t' w' = entry_names t' w)"
        by auto
      have "\<exists>cs. calls w' = calls w @ cs \<and> filter is_create cs = []
                      \<and> (r = Inr () \<longrightarrow> length (filter is_edit cs) = 1)"
        if "name \<in> set (entry_names (Some gid) w)"
        by (rule exI [of _ "[GuildsFetch gid, CommandsFetch (Some gid), c]"])
           (use c(4,5) that in \<open>cases c; simp\<close>)
      with c show ?thesis by blast
    qed
  qed
qed

subsection \<open>Composing the steps of a pass\<close>

lemma present_append [simp]: "present (R1 @ R2) w = (present R1 w \<and> present R2 w)"
  by (simp add: present_def)

lemma present_Nil [simp]: "present [] w"
  by (simp add: present_def)

lemma present_mono:
  assumes "present R w" "\<And>t. set (entry_names t w) \<subseteq> set (entry_names t w')"
  shows "present R w'"
  using assms by (auto simp: present_def list_all_iff)

lemma present_cong:
  assumes "\<And>t. entry_names t w' = entry_names t w"
  shows "present R w' = present R w"
  using assms by (simp add: present_def)

lemma pass_stepD:
  assumes "pass_step R f" "f w = (r, w')" "world_ok w"
  shows "world_ok w'"
    and "\<And>t. set (entry_names t w) \<subseteq> set (entry_names t w')"
    and "r = Inr () \<Longrightarrow> present R w'"
    and "\<And>t. present R w \<Longrightarrow> entry_names t w' = entry_names t w"
    and "present R w \<Longrightarrow> \<exists>cs. calls w' = calls w @ cs \<and> filter is_create cs = []
                   \<and> (r = Inr () \<longrightarrow> length (filter is_edit cs) = length R)"
proof -
  from assms have *: "world_ok w'
        \<and> (\<forall>t. set (entry_names t w) \<subseteq> set (entry_names t w'))
        \<and> (r = Inr () \<longrightarrow> present R w')
        \<and> (present R w \<longrightarrow>
             (\<forall>t. entry_names t w' = entry_names t w)
             \<and> (\<exists>cs. calls w' = calls w @ cs \<and> filter is_create cs = []
                   \<and> (r = Inr () \<longrightarrow> length (filter is_edit cs) = length R)))"
    unfolding pass_step_def by (elim allE [of _ w] allE [of _ r] allE [of _ w']) simp
  from * show "world_ok w'" by simp
  from * show "\<And>t. set (entry_names t w) \<subseteq> set (entry_names t w')" by simp
  from * show "r = Inr () \<Longrightarrow> present R w'" by simp
  from * show "\<And>t. present R w \<Longrightarrow> entry_names t w' = entry_names t w" by simp
  from * show "present R w \<Longrightarrow> \<exists>cs. calls w' = calls w @ cs \<and> filter is_create cs = []
                   \<and> (r = Inr () \<longrightarrow> length (filter is_edit cs) = length R)" by simp
qed

lemma pass_stepI:
  assumes "\<And>w r w'. f w = (r, w') \<Longrightarrow> world_ok w \<Longrightarrow> world_ok w'"
    and "\<And>w r w' t. f w = (r, w') \<Longrightarrow> world_ok w \<Longrightarrow>
           set (entry_names t w) \<subseteq> set (entry_names t w')"
    and "\<And>w w'. f w = (Inr (), w') \<Longrightarrow> world_ok w \<Longrightarrow> present R w'"
    and "\<And>w r w' t. f w = (r, w') \<Longrightarrow> world_ok w \<Longrightarrow> present R w \<Longrightarrow>
           entry_names t w' = entry_names t w"
    and "\<And>w r w'. f w = (r, w') \<Longrightarrow> world_ok w \<Longrightarrow> present R w \<Longrightarrow>
           \<exists>cs. calls w' = calls w @ cs \<and> filter is_create cs = []
                   \<and> (r = Inr () \<longrightarrow> length (filter is_edit cs) = length R)"
  shows "pass_step R f"
  unfolding pass_step_def
proof (intro allI impI conjI; elim conjE)
  fix w r w' assume "f w = (r, w')" "world_ok w"
  then show "world_ok w'" by (rule assms(1))
next
  fix w r w' t assume "f w = (r, w')" "world_ok w"
  then show "set (entry_names t w) \<subseteq> set (entry_names t w')" by (rule assms(2))
next
  fix w r w' assume "f w = (r, w')" "world_ok w" "r = Inr ()"
  then show "present R w'" using assms(3) by simp
next
  fix w r w' t assume "f w = (r, w')" "world_ok w" "present R w"
  then show "entry_names t w' = entry_names t w" by (rule assms(4))
next
  fix w r w' assume "f w = (r, w')" "world_ok w" "present R w"
  then show "\<exists>cs. calls w' = calls w @ cs \<and> filter is_create cs = []
                   \<and> (r = Inr () \<longrightarrow> length (filter is_edit cs) = length R)"
    by (rule assms(5))
qed

lemma pass_step_resolved: "pass_step [] (resolved ())"
  by (simp add: pass_step_def resolved_def)

lemma pass_step_await:
  assumes f: "pass_step R1 f" and g: "pass_step R2 g"
  shows "pass_step (R1 @ R2) (await f (\<lambda>_. g))"
proof (rule pass_stepI)
  fix w r w'
  assume run: "await f (\<lambda>_. g) w = (r, w')" and ok: "world_ok w"
  from run show "world_ok w'"
  proof (cases rule: await_cases)
    case (rejected e)
    then show ?thesis using pass_stepD(1) [OF f _ ok] by simp
  next
    case (resolved x w1)
    then show ?thesis using pass_stepD(1) [OF g _ pass_stepD(1) [OF f _ ok]] by simp
  qed
next
  fix w r w' t
  assume run: "await f (\<lambda>_. g) w = (r, w')" and ok: "world_ok w"
  from run show "set (entry_names t w) \<subseteq> set (entry_names t w')"
  proof (cases rule: await_cases)
    case (rejected e)
    then show ?thesis using pass_stepD(2) [OF f _ ok] by simp
  next
    case (resolved x w1)
    have "set (entry_names t w) \<subseteq> set (entry_names t w1)"
      using pass_stepD(2) [OF f resolved(1) ok] .
    moreover have "set (entry_names t w1) \<subseteq> set (entry_names t w')"
      using pass_stepD(2) [OF g resolved(2) pass_stepD(1) [OF f resolved(1) ok]] .
    ultimately show ?thesis by (rule subset_trans)
  qed
next
  fix w w'
  assume run: "await f (\<lambda>_. g) w = (Inr (), w')" and ok: "world_ok w"
  from run show "present (R1 @ R2) w'"
  proof (cases rule: await_cases)
    case (rejected e)
    then show ?thesis by simp
  next
    case (resolved x w1)
    have x: "x = ()" by simp
    have ok1: "world_ok w1"
      using pass_stepD(1) [OF f resolved(1) ok] .
    have "present R1 w1"
      using pass_stepD(3) [OF f resolved(1) ok] x by simp
    then have "present R1 w'"
      using pass_stepD(2) [OF g resolved(2) ok1] by (rule present_mono)
    moreover have "present R2 w'"
      using pass_stepD(3) [OF g resolved(2) ok1] by simp
    ultimately show ?thesis by simp
  qed
next
  fix w r w' t
  assume run: "await f (\<lambda>_. g) w = (r, w')" and ok: "world_ok w"
    and p: "present (R1 @ R2) w"
  from p have p1: "present R1 w" and p2: "present R2 w" by simp_all
  from run show "entry_names t w' = entry_names t w"
  proof (cases rule: await_cases)
    case (rejected e)
    then show ?thesis using pass_stepD(4) [OF f _ ok p1] by simp
  next
    case (resolved x w1)
    have ok1: "world_ok w1"
      using pass_stepD(1) [OF f resolved(1) ok] .
    have eq1: "\<And>t. entry_names t w1 = entry_names t w"
      using pass_stepD(4) [OF f resolved(1) ok p1] .
    have "present R2 w1"
      using p2 present_cong [of w1 w R2, OF eq1] by simp
    from pass_stepD(4) [OF g resolved(2) ok1 this] eq1 show ?thesis by simp
  qed
next
  fix w r w'
  assume run: "await f (\<lambda>_. g) w = (r, w')" and ok: "world_ok w"
    and p: "present (R1 @ R2) w"
  from p have p1: "present R1 w" and p2: "present R2 w" by simp_all
  from run show "\<exists>cs. calls w' = calls w @ cs \<and> filter is_create cs = []
                   \<and> (r = Inr () \<longrightarrow> length (filter is_edit cs) = length (R1 @ R2))"
  proof (cases rule: await_cases)
    case (rejected e)
    from pass_stepD(5) [OF f rejected(1) ok p1] rejected(2) show ?thesis by auto
  next
    case (resolved x w1)
    have ok1: "world_ok w1"
      using pass_stepD(1) [OF f resolved(1) ok] .
    have eq1: "\<And>t. entry_names t w1 = entry_names t w"
      using pass_stepD(4) [OF f resolved(1) ok p1] .
    have p2': "present R2 w1"
      using p2 present_cong [of w1 w R2, OF eq1] by simp
    have x: "Inr x = (Inr () :: jsval + unit)" by simp
    from pass_stepD(5) [OF f resolved(1) ok p1] x
    obtain cs1 where a: "calls w1 = calls w @ cs1" "filter is_create cs1 = []"
      "length (filter is_edit cs1) = length R1" by auto
    from pass_stepD(5) [OF g resolved(2) ok1 p2']
    obtain cs2 where b: "calls w' = calls w1 @ cs2" "filter is_create cs2 = []"
      "r = Inr () \<longrightarrow> length (filter is_edit cs2) = length R2" by auto
    show ?thesis
      by (rule exI [of _ "cs1 @ cs2"]) (use a b in simp)
  qed
qed

lemma length_required:
  "length (required ld gs paths) = length (publishable_paths ld paths) * length (targets gs)"
  by (induction paths) (auto simp: required_def publishable_paths_def split: sum.splits)

lemma pass_step_rejected: "pass_step R (rejected e)"
  by (rule pass_stepI) (auto simp: rejected_def)

lemma pass_step_log_line:
  assumes f: "pass_step R f"
  shows "pass_step R (await (log_line l) (\<lambda>_. f))"
proof -
  have run: "f (w\<lparr>logs := logs w @ [l]\<rparr>) = (r, w')"
    if "await (log_line l) (\<lambda>_. f) w = (r, w')" for w r w'
    using that by (simp add: await_def log_line_def)
  have ok: "world_ok (w\<lparr>logs := logs w @ [l]\<rparr>)" if "world_ok w" for w
    using that by simp
  have pr: "present R (w\<lparr>logs := logs w @ [l]\<rparr>)" if "present R w" for w
    using that by (simp add: present_def)
  show ?thesis
  proof (rule pass_stepI)
    fix w r w' assume a: "await (log_line l) (\<lambda>_. f) w = (r, w')" "world_ok w"
    show "world_ok w'"
      using pass_stepD(1) [OF f run [OF a(1)] ok [OF a(2)]] .
  next
    fix w r w' t assume a: "await (log_line l) (\<lambda>_. f) w = (r, w')" "world_ok w"
    show "set (entry_names t w) \<subseteq> set (entry_names t w')"
      using pass_stepD(2) [OF f run [OF a(1)] ok [OF a(2)], of t] by simp
  next
    fix w w' assume a: "await (log_line l) (\<lambda>_. f) w = (Inr (), w')" "world_ok w"
    show "present R w'"
      using pass_stepD(3) [OF f run [OF a(1)] ok [OF a(2)]] by simp
  next
    fix w r w' t
    assume a: "await (log_line l) (\<lambda>_. f) w = (r, w')" "world_ok w" "present R w"
    show "entry_names t w' = entry_names t w"
      using pass_stepD(4) [OF f run [OF a(1)] ok [OF a(2)] pr [OF a(3)], of t] by simp
  next
    fix w r w'
    assume a: "await (log_line l) (\<lambda>_. f) w = (r, w')" "world_ok w" "present R w"
    show "\<exists>cs. calls w' = calls w @ cs \<and> filter is_create cs = []
                   \<and> (r = Inr () \<longrightarrow> length (filter is_edit cs) = length R)"
      using pass_stepD(5) [OF f run [OF a(1)] ok [OF a(2)] pr [OF a(3)]] by simp
  qed
qed

lemma pass_step_handleGlobal:
  assumes "or_else (m_name m) name = name"
  shows "pass_step [(None, name)] (handleGlobalCommand flt name m)"
proof -
  have pr: "present [(None, name)] w = (name \<in> set (entry_names None w))" for w
    by (simp add: present_def)
  note step = handleGlobal_step [OF _ _ assms, of flt]
  show ?thesis
  proof (rule pass_stepI)
    fix w r w' assume "handleGlobalCommand flt name m w = (r, w')" "world_ok w"
    from step [OF this] show "world_ok w'" by simp
  next
    fix w r w' t assume "handleGlobalCommand flt name m w = (r, w')" "world_ok w"
    from step [OF this] show "set (entry_names t w) \<subseteq> set (entry_names t w')" by simp
  next
    fix w w' assume "handleGlobalCommand flt name m w = (Inr (), w')" "world_ok w"
    from step [OF this] show "present [(None, name)] w'" by (simp add: pr)
  next
    fix w r w' t
    assume "handleGlobalCommand flt name m w = (r, w')" "world_ok w" and p: "present [(None, name)] w"
    from step [OF this(1,2)] p show "entry_names t w' = entry_names t w" by (simp add: pr)
  next
    fix w r w'
    assume "handleGlobalCommand flt name m w = (r, w')" "world_ok w" and p: "present [(None, name)] w"
    from step [OF this(1,2)] p
    show "\<exists>cs. calls w' = calls w @ cs \<and> filter is_create cs = []
                   \<and> (r = Inr () \<longrightarrow> length (filter is_edit cs) = length [(None, name)])"
      by (simp add: pr)
  qed
qed

lemma pass_step_handleScopedGuild:
  assumes "or_else (m_name m) name = name"
  shows "pass_step [(Some gid, name)] (handleScopedGuild flt name m gid)"
proof -
  have pr: "present [(Some gid, name)] w = (name \<in> set (entry_names (Some gid) w))" for w
    by (simp add: present_def)
  note step = handleScopedGuild_step [OF _ _ assms, of flt gid]
  show ?thesis
  proof (rule pass_stepI)
    fix w r w' assume "handleScopedGuild flt name m gid w = (r, w')" "world_ok w"
    from step [OF this] show "world_ok w'" by simp
  next
    fix w r w' t assume "handleScopedGuild flt name m gid w = (r, w')" "world_ok w"
    from step [OF this] show "set (entry_names t w) \<subseteq> set (entry_names t w')" by simp
  next
    fix w w' assume "handleScopedGuild flt name m gid w = (Inr (), w')" "world_ok w"
    from step [OF this] show "present [(Some gid, name)] w'" by (simp add: pr)
  next
    fix w r w' t
    assume "handleScopedGuild flt name m gid w = (r, w')" "world_ok w" and p: "present [(Some gid, name)] w"
    from step [OF this(1,2)] p show "entry_names t w' = entry_names t w" by (simp add: pr)
  next
    fix w r w'
    assume "handleScopedGuild flt name m gid w = (r, w')" "world_ok w" and p: "present [(Some gid, name)] w"
    from step [OF this(1,2)] p
    show "\<exists>cs. calls w' = calls w @ cs \<and> filter is_create cs = []
                   \<and> (r = Inr () \<longrightarrow> length (filter is_edit cs) = length [(Some gid, name)])"
      by (simp add: pr)
  qed
qed

lemma pass_step_handleScopedGuilds:
  assumes "or_else (m_name m) name = name"
  shows "pass_step (map (\<lambda>t. (t, name)) (map Some gs)) (handleScopedGuildsCommand flt gs name m)"
proof (induction gs)
  case Nil
  have "handleScopedGuildsCommand flt [] name m = resolved ()"
    by (rule ext) simp
  then show ?case by (simp add: pass_step_resolved)
next
  case (Cons g gs)
  have "handleScopedGuildsCommand flt (g # gs) name m =
      await (handleScopedGuild flt name m g) (\<lambda>_. handleScopedGuildsCommand flt gs name m)"
    by (rule ext) simp
  moreover have "pass_step ([(Some g, name)] @ map (\<lambda>t. (t, name)) (map Some gs))
      (await (handleScopedGuild flt name m g) (\<lambda>_. handleScopedGuildsCommand flt gs name m))"
    using pass_step_handleScopedGuild [OF assms] Cons.IH by (rule pass_step_await)
  ultimately show ?case by simp
qed

lemma pass_step_handleCommand:
  assumes "or_else (m_name m) name = name"
  shows "pass_step (map (\<lambda>t. (t, name)) (targets gs)) (handleCommand flt gs m name)"
proof -
  have "pass_step (map (\<lambda>t. (t, name)) (targets gs))
      (if length gs \<noteq> 0 then handleScopedGuildsCommand flt gs name m
       else handleGlobalCommand flt name m)"
    using pass_step_handleScopedGuilds [OF assms, of gs flt] pass_step_handleGlobal [OF assms, of flt]
    by (simp add: targets_def)
  then have "pass_step (map (\<lambda>t. (t, name)) (targets gs))
      (await (log_line (LogDebug (''Checking if '' @ name @ '' is already registered'')))
         (\<lambda>_. if length gs \<noteq> 0 then handleScopedGuildsCommand flt gs name m
               else handleGlobalCommand flt name m))"
    by (rule pass_step_log_line)
  then show ?thesis
    by (simp add: handleCommand_def debug_def)
qed

lemma resolveName_keeps_name: "or_else (m_name m) (resolveName m p) = resolveName m p"
  by (cases "m_name m") (simp_all add: resolveName_def or_else_def)

lemma pass_step_sync_files:
  "pass_step (required ld gs paths) (sync_files flt ld gs paths)"
proof (induction paths)
  case Nil
  have "sync_files flt ld gs [] = resolved ()"
    by (rule ext) simp
  then show ?case by (simp add: required_def pass_step_resolved)
next
  case (Cons p ps)
  show ?case
  proof (cases "ld (''file:///'' @ p)")
    case (Inl e)
    then have "sync_files flt ld gs (p # ps) = rejected e"
      by (intro ext) (simp add: await_def import_default_def rejected_def)
    then show ?thesis by (simp add: pass_step_rejected)
  next
    case (Inr m)
    let ?R1 = "if publishable m then map (\<lambda>t. (t, resolveName m p)) (targets gs) else []"
    let ?f = "if publishable m then handleCommand flt gs m (resolveName m p) else resolved ()"
    have eq: "sync_files flt ld gs (p # ps) = await ?f (\<lambda>_. sync_files flt ld gs ps)"
      using Inr by (intro ext) (simp add: await_def import_default_def)
    have "pass_step ?R1 ?f"
      using pass_step_handleCommand [OF resolveName_keeps_name, of m p gs flt]
      by (simp add: pass_step_resolved)
    then have "pass_step (?R1 @ required ld gs ps) (await ?f (\<lambda>_. sync_files flt ld gs ps))"
      using Cons.IH by (rule pass_step_await)
    moreover have "required ld gs (p # ps) = ?R1 @ required ld gs ps"
      using Inr by (simp add: required_def)
    ultimately show ?thesis using eq by simp
  qed
qed

lemma pass_step_sync:
  "pass_step (required ld gs (fst (discovered fs))) (sync flt ld fs gs)"
proof -
  let ?fin = "case snd (discovered fs) of Some e \<Rightarrow> rejected e | None \<Rightarrow> resolved ()"
  have "pass_step [] ?fin"
    by (cases "snd (discovered fs)") (simp_all add: pass_step_rejected pass_step_resolved)
  with pass_step_sync_files
  have "pass_step (required ld gs (fst (discovered fs)) @ [])
      (await (sync_files flt ld gs (fst (discovered fs))) (\<lambda>_. ?fin))"
    by (rule pass_step_await)
  then have "pass_step (required ld gs (fst (discovered fs)))
      (await (log_line (LogInfo ''Syncing commands''))
        (\<lambda>_. await (sync_files flt ld gs (fst (discovered fs))) (\<lambda>_. ?fin)))"
    using pass_step_log_line by simp
  then show ?thesis by (simp add: sync_def)
qed

subsection \<open>The log of a pass\<close>

lemma quiet_await:
  assumes "quiet f" "\<And>x. quiet (g x)"
  shows "quiet (await f g)"
  using assms unfolding quiet_def await_def
  by (auto split: prod.splits sum.splits)

lemma quiet_prims:
  "quiet (resolved x)"
  "quiet (rejected e)"
  "quiet (debug s)"
  "quiet (log_line (LogInfo s))"
  "quiet (guilds_fetch flt gid)"
  "quiet (commands_fetch flt t)"
  "quiet (commands_create flt t d)"
  "quiet (command_edit flt rc d)"
  "quiet (import_default ld url)"
  by (auto simp: quiet_def prim_defs import_default_def split: option.splits prod.splits)

lemma quiet_handleScopedGuild: "quiet (handleScopedGuild flt name m gid)"
proof -
  have tail: "quiet (\<lambda>w. case guilds_fetch flt gid w of
      (Inl _, w') \<Rightarrow> (Inl e, w') | (Inr g, w') \<Rightarrow> k g w')" if "\<And>g. quiet (k g)" for e k
    using that quiet_prims(5) [of flt gid] unfolding quiet_def
    by (auto split: prod.splits sum.splits)
  show ?thesis
    unfolding handleScopedGuild_def [abs_def]
    by (rule tail)
       (auto intro!: quiet_await quiet_prims
             simp: updateCommand_def registerGuildCommand_def split: option.splits)
qed

lemma quiet_handleGlobal: "quiet (handleGlobalCommand flt name m)"
  unfolding handleGlobalCommand_def
  by (auto intro!: quiet_await quiet_prims
           simp: updateCommand_def registerGlobalCommand_def split: option.splits)

lemma quiet_handleScopedGuilds: "quiet (handleScopedGuildsCommand flt gs name m)"
proof (induction gs)
  case Nil
  have "handleScopedGuildsCommand flt [] name m = resolved ()"
    by (rule ext) simp
  then show ?case by (simp add: quiet_prims)
next
  case (Cons g gs)
  have "handleScopedGuildsCommand flt (g # gs) name m =
      await (handleScopedGuild flt name m g) (\<lambda>_. handleScopedGuildsCommand flt gs name m)"
    by (rule ext) simp
  then show ?case using Cons.IH by (simp add: quiet_await quiet_handleScopedGuild)
qed

lemma quiet_handleCommand: "quiet (handleCommand flt gs m name)"
  unfolding handleCommand_def
  by (auto intro!: quiet_await quiet_prims quiet_handleGlobal quiet_handleScopedGuilds)

lemma quiet_sync_files: "quiet (sync_files flt ld gs paths)"
proof (induction paths)
  case Nil
  have "sync_files flt ld gs [] = resolved ()"
    by (rule ext) simp
  then show ?case by (simp add: quiet_prims)
next
  case (Cons p ps)
  have "sync_files flt ld gs (p # ps) =
     await (import_default ld (''file:///'' @ p)) (\<lambda>m.
     await (if publishable m
            then handleCommand flt gs m (resolveName m p)
            else resolved ()) (\<lambda>_.
       sync_files flt ld gs ps))"
    by (rule ext) simp
  then show ?case using Cons.IH
    by (auto intro!: quiet_await quiet_prims quiet_handleCommand)
qed

lemma quiet_sync: "quiet (sync flt ld fs gs)"
  unfolding sync_def
  by (auto intro!: quiet_await quiet_prims quiet_sync_files split: option.splits)

subsection \<open>A rejected write ends the pass\<close>

lemma stopsI:
  assumes "\<And>w r w'. f w = (r, w') \<Longrightarrow>
     \<exists>cs. calls w' = calls w @ cs
           \<and> (\<forall>i e. i < length cs \<and> (is_create (cs ! i) \<or> is_edit (cs ! i))
                      \<and> flt (calls w @ take i cs) (cs ! i) = Some e \<longrightarrow>
                    r = Inl e \<and> Suc i = length cs)"
  shows "stops_at_rejected_write flt f"
  using assms unfolding stops_at_rejected_write_def by blast

lemma stopsD:
  assumes "stops_at_rejected_write flt f" "f w = (r, w')"
  obtains cs where "calls w' = calls w @ cs"
    and "\<And>i e. i < length cs \<Longrightarrow> is_create (cs ! i) \<or> is_edit (cs ! i) \<Longrightarrow>
           flt (calls w @ take i cs) (cs ! i) = Some e \<Longrightarrow> r = Inl e \<and> Suc i = length cs"
proof -
  from assms obtain cs where "calls w' = calls w @ cs"
    and "\<forall>i e. i < length cs \<and> (is_create (cs ! i) \<or> is_edit (cs ! i))
                      \<and> flt (calls w @ take i cs) (cs ! i) = Some e \<longrightarrow>
                    r = Inl e \<and> Suc i = length cs"
    unfolding stops_at_rejected_write_def by (elim allE [of _ w] allE [of _ r] allE [of _ w']) auto
  then show ?thesis using that by simp
qed

lemma stops_await:
  assumes f: "stops_at_rejected_write flt f" and g: "\<And>x. stops_at_rejected_write flt (g x)"
  shows "stops_at_rejected_write flt (await f g)"
proof (rule stopsI)
  fix w r w'
  assume run: "await f g w = (r, w')"
  then show "\<exists>cs. calls w' = calls w @ cs
           \<and> (\<forall>i e. i < length cs \<and> (is_create (cs ! i) \<or> is_edit (cs ! i))
                      \<and> flt (calls w @ take i cs) (cs ! i) = Some e \<longrightarrow>
                    r = Inl e \<and> Suc i = length cs)"
  proof (cases rule: await_cases)
    case (rejected e0)
    from stopsD [OF f rejected(1)] obtain cs where cs: "calls w' = calls w @ cs"
      and st: "\<And>i e. i < length cs \<Longrightarrow> is_create (cs ! i) \<or> is_edit (cs ! i) \<Longrightarrow>
           flt (calls w @ take i cs) (cs ! i) = Some e \<Longrightarrow> Inl e0 = (Inl e :: jsval + 'a) \<and> Suc i = length cs"
      by blast
    show ?thesis
      by (rule exI [of _ cs]) (use cs st rejected(2) in auto)
  next
    case (resolved x w1)
    from stopsD [OF f resolved(1)] obtain cs1 where cs1: "calls w1 = calls w @ cs1"
      and st1: "\<And>i e. i < length cs1 \<Longrightarrow> is_create (cs1 ! i) \<or> is_edit (cs1 ! i) \<Longrightarrow>
           flt (calls w @ take i cs1) (cs1 ! i) = Some e \<Longrightarrow> Inr x = (Inl e :: jsval + 'a) \<and> Suc i = length cs1"
      by blast
    from stopsD [OF g resolved(2)] obtain cs2 where cs2: "calls w' = calls w1 @ cs2"
      and st2: "\<And>i e. i < length cs2 \<Longrightarrow> is_create (cs2 ! i) \<or> is_edit (cs2 ! i) \<Longrightarrow>
           flt (calls w1 @ take i cs2) (cs2 ! i) = Some e \<Longrightarrow> r = Inl e \<and> Suc i = length cs2"
      by blast
    have "r = Inl e \<and> Suc i = length (cs1 @ cs2)"
      if i: "i < length (cs1 @ cs2)"
        and wr: "is_create ((cs1 @ cs2) ! i) \<or> is_edit ((cs1 @ cs2) ! i)"
        and rj: "flt (calls w @ take i (cs1 @ cs2)) ((cs1 @ cs2) ! i) = Some e" for i e
    proof (cases "i < length cs1")
      case True
      with wr rj have "is_create (cs1 ! i) \<or> is_edit (cs1 ! i)"
        "flt (calls w @ take i cs1) (cs1 ! i) = Some e"
        by (simp_all add: nth_append)
      from st1 [OF True this] show ?thesis by simp
    next
      case False
      let ?j = "i - length cs1"
      from False i have j: "?j < length cs2" by simp
      from False wr have wr2: "is_create (cs2 ! ?j) \<or> is_edit (cs2 ! ?j)"
        by (simp add: nth_append)
      from False rj have "flt (calls w1 @ take ?j cs2) (cs2 ! ?j) = Some e"
        by (simp add: nth_append cs1)
      from st2 [OF j wr2 this] False show ?thesis by auto
    qed
    then show ?thesis
      by (intro exI [of _ "cs1 @ cs2"]) (use cs1 cs2 in auto)
  qed
qed

lemma stops_silent:
  assumes "\<And>w r w'. f w = (r, w') \<Longrightarrow> calls w' = calls w"
  shows "stops_at_rejected_write flt f"
  by (rule stopsI) (use assms in auto)

lemma stops_remote_call: "stops_at_rejected_write flt (remote_call flt c)"
  by (rule stopsI) (auto simp: remote_call_def split: option.splits)

lemma stops_prims:
  "stops_at_rejected_write flt (resolved x)"
  "stops_at_rejected_write flt (rejected e)"
  "stops_at_rejected_write flt (debug s)"
  "stops_at_rejected_write flt (log_line l)"
  "stops_at_rejected_write flt (import_default ld url)"
  by (rule stops_silent; auto simp: resolved_def rejected_def debug_def log_line_def
        import_default_def)+

lemma stops_remote:
  "stops_at_rejected_write flt (commands_fetch flt t)"
  "stops_at_rejected_write flt (commands_create flt t d)"
  "stops_at_rejected_write flt (command_edit flt rc d)"
  unfolding commands_fetch_def commands_create_def command_edit_def
  by (rule stops_await [OF stops_remote_call], rule stops_silent,
      auto split: option.splits prod.splits)+

text \<open>The attempt to resolve a guild, with its \<^verbatim>\<open>catch\<close> and the thrown error.\<close>

lemma stops_guild_or_throw:
  "stops_at_rejected_write flt
     (\<lambda>w. case guilds_fetch flt gid w of
             (Inl _, w') \<Rightarrow> (Inl e0, w')
           | (Inr g, w') \<Rightarrow> (Inr g, w'))"
  by (rule stopsI)
     (auto simp: guilds_fetch_def remote_call_def await_def split: option.splits)

lemma handleScopedGuild_as_await:
  "handleScopedGuild flt name m gid =
     await (\<lambda>w. case guilds_fetch flt gid w of
                   (Inl _, w') \<Rightarrow> (Inl (JError (''Found no Guild with id '' @ gid @ ''!'')), w')
                 | (Inr g, w') \<Rightarrow> (Inr g, w'))
       (\<lambda>g.
          await (debug (''Fetching (or retrieving from cache, if available) guild '' @ g_name g
                        @ '' ('' @ g_id g @ '') commands...'')) (\<lambda>_.
          await (commands_fetch flt (Some (g_id g))) (\<lambda>commands.
            case find (\<lambda>e. e_name e = name) commands of
              Some registeredCommand \<Rightarrow>
                await (debug (''Updating command '' @ name @ ''...'')) (\<lambda>_.
                  updateCommand flt registeredCommand m name)
            | None \<Rightarrow>
                await (debug (''Registering '' @ name @ '' command.'')) (\<lambda>_.
                  registerGuildCommand flt g name m))))"
  by (rule ext) (simp add: handleScopedGuild_def await_def split: prod.splits sum.splits)

lemma stops_handleScopedGuild: "stops_at_rejected_write flt (handleScopedGuild flt name m gid)"
  unfolding handleScopedGuild_as_await
  by (rule stops_await [OF stops_guild_or_throw])
     (auto intro!: stops_await stops_prims stops_remote
           simp: updateCommand_def registerGuildCommand_def split: option.splits)

lemma stops_handleGlobal: "stops_at_rejected_write flt (handleGlobalCommand flt name m)"
  unfolding handleGlobalCommand_def
  by (auto intro!: stops_await stops_prims stops_remote
           simp: updateCommand_def registerGlobalCommand_def split: option.splits)

lemma stops_handleScopedGuilds:
  "stops_at_rejected_write flt (handleScopedGuildsCommand flt gs name m)"
proof (induction gs)
  case Nil
  have "handleScopedGuildsCommand flt [] name m = resolved ()"
    by (rule ext) simp
  then show ?case by (simp add: stops_prims)
next
  case (Cons g gs)
  have "handleScopedGuildsCommand flt (g # gs) name m =
      await (handleScopedGuild flt name m g) (\<lambda>_. handleScopedGuildsCommand flt gs name m)"
    by (rule ext) simp
  then show ?case using Cons.IH by (simp add: stops_await stops_handleScopedGuild)
qed

lemma stops_handleCommand: "stops_at_rejected_write flt (handleCommand flt gs m name)"
  unfolding handleCommand_def
  by (auto intro!: stops_await stops_prims stops_handleGlobal stops_handleScopedGuilds)

lemma stops_sync_files: "stops_at_rejected_write flt (sync_files flt ld gs paths)"
proof (induction paths)
  case Nil
  have "sync_files flt ld gs [] = resolved ()"
    by (rule ext) simp
  then show ?case by (simp add: stops_prims)
next
  case (Cons p ps)
  have "sync_files flt ld gs (p # ps) =
     await (import_default ld (''file:///'' @ p)) (\<lambda>m.
     await (if publishable m
            then handleCommand flt gs m (resolveName m p)
            else resolved ()) (\<lambda>_.
       sync_files flt ld gs ps))"
    by (rule ext) simp
  then show ?case using Cons.IH
    by (auto intro!: stops_await stops_prims stops_handleCommand)
qed

lemma stops_sync: "stops_at_rejected_write flt (sync flt ld fs gs)"
  unfolding sync_def
  by (auto intro!: stops_await stops_prims stops_sync_files split: option.splits)

section \<open>Fetching the registry\<close>

text \<open>
  C1, as the code has it. The entry set of a registry is fetched once for every
  publishable definition and every target, immediately before the create or edit call
  of that definition on that target: a pass that succeeds touches the registries in the
  order definition by definition, target by target, each time a fetch followed by one
  write. A target reconciled against \<open>n\<close> definitions is fetched \<open>n\<close> times.
\<close>

theorem registry_fetched_per_definition:
  assumes "sync flt ld fs scopedGuilds w = (Inr (), w')"
  shows "registry_ops (issued w w') =
           concat (map (\<lambda>p. concat (map (\<lambda>t. [Fetched t, Written t]) (targets scopedGuilds)))
                     (publishable_paths ld (fst (discovered fs))))"
  using sync_calls [OF assms] by (auto simp: issued_def)

theorem registry_fetched_per_definition_witness:
  "registry_ops
     (issued world_g2 (snd (sync no_faults commands_loader commands_fs [''g2''] world_g2))) =
   [Fetched (Some ''g2''), Written (Some ''g2''), Fetched (Some ''g2''), Written (Some ''g2'')]"
proof -
  have "fst (sync no_faults commands_loader commands_fs [''g2''] world_g2) = Inr ()"
    by code_simp
  then have run: "sync no_faults commands_loader commands_fs [''g2''] world_g2 =
      (Inr (), snd (sync no_faults commands_loader commands_fs [''g2''] world_g2))"
    by (metis prod.collapse)
  have "concat (map (\<lambda>p. concat (map (\<lambda>t. [Fetched t, Written t]) (targets [''g2''])))
                     (publishable_paths commands_loader (fst (discovered commands_fs)))) =
    [Fetched (Some ''g2''), Written (Some ''g2''), Fetched (Some ''g2''), Written (Some ''g2'')]"
    by code_simp
  with registry_fetched_per_definition [OF run] show ?thesis by simp
qed

text \<open>
  The claim as written fails: with two publishable definitions and the global target, the
  registry is fetched a second time after the first definition has been written.
\<close>

theorem global_registry_fetched_twice:
  "publishable_paths commands_loader (fst (discovered commands_fs)) =
     [''/bot/dist/src/commands/ping.js'', ''/bot/dist/src/commands/mod/ban.js'']
   \<and> fst (sync no_faults commands_loader commands_fs [] empty_world) = Inr ()
   \<and> registry_ops (calls (snd (sync no_faults commands_loader commands_fs [] empty_world))) =
       [Fetched None, Written None, Fetched None, Written None]"
  by code_simp

section \<open>A rejected create or edit call\<close>

text \<open>
  C2, as the code has it. On every target, global or guild, and at every definition, a
  create or edit call that the remote rejects is not confined to its definition: the pass
  is rejected with the reason of that call, and the rejected call is the last call the
  pass issues, so no definition and no target after it is processed, whatever files
  follow in the walk. The rejection of the loop is the rejection of \<^verbatim>\<open>sync\<close>.
\<close>

theorem rejected_write_aborts_pass:
  assumes "sync_files flt ld scopedGuilds paths w = (r, w')"
    and "i < length (issued w w')"
    and "is_create (issued w w' ! i) \<or> is_edit (issued w w' ! i)"
    and "flt (calls w @ take i (issued w w')) (issued w w' ! i) = Some e"
  shows "r = Inl e
         \<and> Suc i = length (issued w w')
         \<and> sync_files flt ld scopedGuilds (paths @ later) w = (Inl e, w')
         \<and> (fst (discovered fs) = paths
              \<and> w = w0\<lparr>logs := logs w0 @ [LogInfo ''Syncing commands'']\<rparr> \<longrightarrow>
              sync flt ld fs scopedGuilds w0 = (Inl e, w'))"
proof -
  from stopsD [OF stops_sync_files assms(1)] obtain cs where cs: "calls w' = calls w @ cs"
    and st: "\<And>i e. i < length cs \<Longrightarrow> is_create (cs ! i) \<or> is_edit (cs ! i) \<Longrightarrow>
           flt (calls w @ take i cs) (cs ! i) = Some e \<Longrightarrow> r = Inl e \<and> Suc i = length cs"
    by blast
  have iss: "issued w w' = cs"
    using cs by (simp add: issued_def)
  from st [of i e] assms(2-4) have r: "r = Inl e" and last: "Suc i = length (issued w w')"
    by (simp_all add: iss)
  have later: "sync_files flt ld scopedGuilds (paths @ later) w = (Inl e, w')"
    using assms(1) r by (simp add: sync_files_append await_def)
  have "sync flt ld fs scopedGuilds w0 = (Inl e, w')"
    if "fst (discovered fs) = paths" "w = w0\<lparr>logs := logs w0 @ [LogInfo ''Syncing commands'']\<rparr>"
    using assms(1) r that by (simp add: sync_def await_def log_line_def)
  with r last later show ?thesis by simp
qed

theorem rejected_write_aborts_pass_witness:
  "fst rejected_pass = Inl (JError ''Missing Access'')
   \<and> issued world_g2 (snd rejected_pass) =
       [GuildsFetch ''g2'', CommandsFetch (Some ''g2''),
        CommandsCreate (Some ''g2'')
          \<lparr>d_name = Some ''ping'', d_description = Some ''..'', d_type = ChatInput,
           d_options = Some []\<rparr>]
   \<and> Suc 2 = length (issued world_g2 (snd rejected_pass))"
proof -
  have run: "sync_files reject_writes commands_loader [''g2'']
       [''/bot/dist/src/commands/ping.js'', ''/bot/dist/src/commands/mod/ban.js''] world_g2
       = (fst rejected_pass, snd rejected_pass)"
    by (simp add: rejected_pass_def)
  have tr: "issued world_g2 (snd rejected_pass) =
       [GuildsFetch ''g2'', CommandsFetch (Some ''g2''),
        CommandsCreate (Some ''g2'')
          \<lparr>d_name = Some ''ping'', d_description = Some ''..'', d_type = ChatInput,
           d_options = Some []\<rparr>]"
    by code_simp
  have i: "2 < length (issued world_g2 (snd rejected_pass))"
    by (simp add: tr)
  have wr: "is_create (issued world_g2 (snd rejected_pass) ! 2)
            \<or> is_edit (issued world_g2 (snd rejected_pass) ! 2)"
    by (simp add: tr)
  have rj: "reject_writes (calls world_g2 @ take 2 (issued world_g2 (snd rejected_pass)))
              (issued world_g2 (snd rejected_pass) ! 2) = Some (JError ''Missing Access'')"
    by (simp add: tr reject_writes_def)
  from rejected_write_aborts_pass [OF run i wr rj] tr show ?thesis by simp
qed

text \<open>
  The claim as written fails: when the create call of the first of two publishable
  definitions is rejected, the pass ends there and nothing is issued for the second.
\<close>

theorem rejected_create_stops_later_definitions:
  "publishable_paths commands_loader (fst (discovered commands_fs)) =
     [''/bot/dist/src/commands/ping.js'', ''/bot/dist/src/commands/mod/ban.js'']
   \<and> fst (sync reject_writes commands_loader commands_fs [] empty_world) =
       Inl (JError ''Missing Access'')
   \<and> calls (snd (sync reject_writes commands_loader commands_fs [] empty_world)) =
       [CommandsFetch None,
        CommandsCreate None
          \<lparr>d_name = Some ''ping'', d_description = Some ''..'', d_type = ChatInput,
           d_options = Some []\<rparr>]"
  by code_simp

section \<open>Scoped guilds\<close>

text \<open>
  C3, as the code has it. For a pass over the guilds \<open>g1\<close> and \<open>g2\<close> with one
  publishable definition that succeeds, each guild's registry is fetched and written
  exactly once, \<open>g1\<close> first. A guild that cannot be resolved ends the whole pass with
  the error \<^verbatim>\<open>Found no Guild with id ...\<close>: after the attempt to resolve it no call is
  issued, neither for the guilds after it nor for the definitions after this one.
\<close>

theorem scoped_pass_writes_each_guild_or_aborts:
  "(sync flt ld fs [g1, g2] w = (Inr (), w')
      \<and> publishable_paths ld (fst (discovered fs)) = [path] \<longrightarrow>
        registry_ops (issued w w') =
          [Fetched (Some g1), Written (Some g1), Fetched (Some g2), Written (Some g2)])
   \<and> (registry (Some g1) w = None \<and> ld (''file:///'' @ path) = Inr m \<and> publishable m \<longrightarrow>
        sync_files flt ld (g1 # gs) (path # rest) w =
          (Inl (JError (''Found no Guild with id '' @ g1 @ ''!'')),
           w\<lparr>logs := logs w @ [LogDebug (''Checking if '' @ resolveName m path
                                         @ '' is already registered'')],
             calls := calls w @ [GuildsFetch g1]\<rparr>))"
proof -
  have "registry_ops (issued w w') =
          [Fetched (Some g1), Written (Some g1), Fetched (Some g2), Written (Some g2)]"
    if "sync flt ld fs [g1, g2] w = (Inr (), w')"
      and "publishable_paths ld (fst (discovered fs)) = [path]"
    using sync_calls [OF that(1)] that(2) by (auto simp: issued_def targets_def)
  moreover have "sync_files flt ld (g1 # gs) (path # rest) w =
          (Inl (JError (''Found no Guild with id '' @ g1 @ ''!'')),
           w\<lparr>logs := logs w @ [LogDebug (''Checking if '' @ resolveName m path
                                         @ '' is already registered'')],
             calls := calls w @ [GuildsFetch g1]\<rparr>)"
    if "registry (Some g1) w = None" and "ld (''file:///'' @ path) = Inr m" and "publishable m"
    using that
    by (simp add: await_def import_default_def handleCommand_def debug_def log_line_def
                  handleScopedGuild_unknown)
  ultimately show ?thesis by blast
qed

theorem scoped_pass_writes_each_guild_or_aborts_witness:
  "registry_ops
     (issued world_g1_g2 (snd (sync no_faults commands_loader ping_fs [''g1'', ''g2''] world_g1_g2)))
     = [Fetched (Some ''g1''), Written (Some ''g1''), Fetched (Some ''g2''), Written (Some ''g2'')]
   \<and> sync_files no_faults commands_loader (''g1'' # [''g2''])
        (''/bot/dist/src/commands/ping.js'' # []) world_g2 =
          (Inl (JError (''Found no Guild with id '' @ ''g1'' @ ''!'')),
           world_g2\<lparr>logs := logs world_g2 @ [LogDebug (''Checking if '' @ resolveName ping_module
                   ''/bot/dist/src/commands/ping.js'' @ '' is already registered'')],
             calls := calls world_g2 @ [GuildsFetch ''g1'']\<rparr>)"
proof -
  have "fst (sync no_faults commands_loader ping_fs [''g1'', ''g2''] world_g1_g2) = Inr ()"
    by code_simp
  then have run: "sync no_faults commands_loader ping_fs [''g1'', ''g2''] world_g1_g2 =
      (Inr (), snd (sync no_faults commands_loader ping_fs [''g1'', ''g2''] world_g1_g2))"
    by (metis prod.collapse)
  have one: "publishable_paths commands_loader (fst (discovered ping_fs)) =
      [''/bot/dist/src/commands/ping.js'']"
    by code_simp
  have gone: "registry (Some ''g1'') world_g2 = None"
    by code_simp
  have ld: "commands_loader (''file:///'' @ ''/bot/dist/src/commands/ping.js'') = Inr ping_module"
    by (simp add: commands_loader_def)
  have pub: "publishable ping_module"
    by code_simp
  note inst1 = scoped_pass_writes_each_guild_or_aborts
    [where flt = no_faults and ld = commands_loader and fs = ping_fs and ?g1.0 = "''g1''"
       and ?g2.0 = "''g2''" and w = world_g1_g2
       and w' = "snd (sync no_faults commands_loader ping_fs [''g1'', ''g2''] world_g1_g2)"
       and path = "''/bot/dist/src/commands/ping.js''"]
  note inst2 = scoped_pass_writes_each_guild_or_aborts
    [where flt = no_faults and ld = commands_loader and ?g1.0 = "''g1''" and w = world_g2
       and path = "''/bot/dist/src/commands/ping.js''" and m = ping_module
       and gs = "[''g2'']" and rest = "[]"]
  from inst1 run one have "registry_ops
     (issued world_g1_g2 (snd (sync no_faults commands_loader ping_fs [''g1'', ''g2''] world_g1_g2)))
     = [Fetched (Some ''g1''), Written (Some ''g1''), Fetched (Some ''g2''), Written (Some ''g2'')]"
    by blast
  moreover from inst2 gone ld pub have "sync_files no_faults commands_loader (''g1'' # [''g2''])
        (''/bot/dist/src/commands/ping.js'' # []) world_g2 =
          (Inl (JError (''Found no Guild with id '' @ ''g1'' @ ''!'')),
           world_g2\<lparr>logs := logs world_g2 @ [LogDebug (''Checking if '' @ resolveName ping_module
                   ''/bot/dist/src/commands/ping.js'' @ '' is already registered'')],
             calls := calls world_g2 @ [GuildsFetch ''g1'']\<rparr>)"
    by blast
  ultimately show ?thesis by blast
qed

text \<open>
  The claim as written fails: with \<open>g1\<close> unknown and \<open>g2\<close> known, the only call of the
  pass is the attempt to resolve \<open>g1\<close>.
\<close>

theorem unknown_guild_stops_second_guild:
  "registry (Some ''g1'') world_g2 = None
   \<and> registry (Some ''g2'') world_g2 = Some []
   \<and> publishable_paths commands_loader (fst (discovered ping_fs)) =
       [''/bot/dist/src/commands/ping.js'']
   \<and> fst (sync no_faults commands_loader ping_fs [''g1'', ''g2''] world_g2) =
       Inl (JError ''Found no Guild with id g1!'')
   \<and> calls (snd (sync no_faults commands_loader ping_fs [''g1'', ''g2''] world_g2)) =
       [GuildsFetch ''g1'']"
  by code_simp

section \<open>The data of a create and of an edit call\<close>

text \<open>
  C4 at a context menu definition. The message context menu \<^verbatim>\<open>Report\<close>, with no entry
  of that name in the registry, is created with its name, the placeholder description and
  no options, and with the type \<open>ChatInput\<close>, where the claim asks for \<open>Message\<close>.
\<close>

theorem context_menu_created_as_chat_input:
  "m_type report_module = CommandType_CtxMsg
   \<and> fst (sync no_faults commands_loader report_fs [] empty_world) = Inr ()
   \<and> calls (snd (sync no_faults commands_loader report_fs [] empty_world)) =
       [CommandsFetch None,
        CommandsCreate None
          \<lparr>d_name = Some ''Report'', d_description = Some ''..'', d_type = ChatInput,
           d_options = None\<rparr>]
   \<and> calls (snd (sync no_faults commands_loader report_fs [''g2''] world_g2)) =
       [GuildsFetch ''g2'', CommandsFetch (Some ''g2''),
        CommandsCreate (Some ''g2'')
          \<lparr>d_name = Some ''Report'', d_description = Some ''..'', d_type = ChatInput,
           d_options = None\<rparr>]"
  by code_simp

text \<open>
  C5 at a definition without name and description. The module of \<^verbatim>\<open>ping.js\<close> matches the
  registered command \<^verbatim>\<open>ping\<close>; the edit call goes to that entry's id, but with no name
  and no description, where a create call for the same module carries the resolved name
  and the placeholder.
\<close>

theorem edit_sends_no_name_and_no_placeholder:
  "m_name ping_module = None \<and> m_description ping_module = None
   \<and> resolveName ping_module ''/bot/dist/src/commands/ping.js'' = ''ping''
   \<and> map e_name (app_commands world_ping) = [''ping'']
   \<and> fst (sync no_faults commands_loader ping_fs [] world_ping) = Inr ()
   \<and> calls (snd (sync no_faults commands_loader ping_fs [] world_ping)) =
       [CommandsFetch None,
        CommandEdit None 7
          \<lparr>d_name = None, d_description = None, d_type = ChatInput, d_options = Some []\<rparr>]
   \<and> calls (snd (sync no_faults commands_loader ping_fs [] empty_world)) =
       [CommandsFetch None,
        CommandsCreate None
          \<lparr>d_name = Some ''ping'', d_description = Some ''..'', d_type = ChatInput,
           d_options = Some []\<rparr>]"
  by code_simp

section \<open>The option transformer\<close>

text \<open>
  C6, as the code has it. For a module of type Slash or Both the transformer returns one
  entry per option, in the original order; an entry whose \<^verbatim>\<open>autocomplete\<close> field is
  truthy comes back without its \<^verbatim>\<open>command\<close> field (the autocomplete handler) and with
  every other field as it was, in order; every other entry comes back unchanged,
  whatever fields it has. A module without options yields the empty sequence. For the
  context menu types the result is absent.
\<close>

theorem optionsTransformer_strips_flagged:
  "((m_type m = CommandType_Slash \<or> m_type m = CommandType_Both) \<longrightarrow>
      (\<exists>ys. optionsTransformer m = Some ys
         \<and> length ys = length (or_else (m_options m) [])
         \<and> (\<forall>i < length ys.
               ys ! i =
                 (if truthy (get_field (or_else (m_options m) [] ! i) ''autocomplete'')
                  then omit_field ''command'' (or_else (m_options m) [] ! i)
                  else or_else (m_options m) [] ! i))))
   \<and> map_of (omit_field ''command'' el) ''command'' = None
   \<and> (k \<noteq> ''command'' \<longrightarrow> map_of (omit_field ''command'' el) k = map_of el k)
   \<and> map fst (omit_field ''command'' el) = filter (\<lambda>f. f \<noteq> ''command'') (map fst el)
   \<and> ((m_type m = CommandType_CtxUser \<or> m_type m = CommandType_CtxMsg) \<longrightarrow>
        optionsTransformer m = None)"
proof -
  have "map fst (omit_field ''command'' el) = filter (\<lambda>f. f \<noteq> ''command'') (map fst el)"
    by (induction el) (auto simp: omit_field_def)
  then show ?thesis
    by (auto simp: optionsTransformer_def or_else_def omit_field_absent omit_field_other
                   CommandType_defs
             split: option.splits)
qed

theorem optionsTransformer_strips_flagged_witness:
  "optionsTransformer ban_module =
     Some [[(''name'', JStr ''member''), (''type'', JNum 6), (''required'', JBool True)],
           [(''name'', JStr ''reason''), (''type'', JNum 3), (''autocomplete'', JBool True)]]
   \<and> optionsTransformer report_module = None"
proof -
  have slash: "m_type ban_module = CommandType_Slash"
    by (simp add: ban_module_def)
  have ctx: "m_type report_module = CommandType_CtxMsg"
    by (simp add: report_module_def)
  from optionsTransformer_strips_flagged [of ban_module "[]" "''name''"] slash
  obtain ys where ys: "optionsTransformer ban_module = Some ys"
    and len: "length ys = length (or_else (m_options ban_module) [])"
    and nth: "\<forall>i < length ys.
               ys ! i =
                 (if truthy (get_field (or_else (m_options ban_module) [] ! i) ''autocomplete'')
                  then omit_field ''command'' (or_else (m_options ban_module) [] ! i)
                  else or_else (m_options ban_module) [] ! i)"
    by blast
  have len2: "length ys = 2"
    using len by (simp add: ban_module_def or_else_def)
  then have "ys = [ys ! 0, ys ! 1]"
    by (cases ys; cases "tl ys") auto
  moreover have "ys ! 0 = [(''name'', JStr ''member''), (''type'', JNum 6), (''required'', JBool True)]"
    using nth len2 by (simp add: ban_module_def or_else_def get_field_def)
  moreover have "ys ! 1 = [(''name'', JStr ''reason''), (''type'', JNum 3), (''autocomplete'', JBool True)]"
    using nth len2 by (simp add: ban_module_def or_else_def get_field_def omit_field_def)
  ultimately have "optionsTransformer ban_module =
     Some [[(''name'', JStr ''member''), (''type'', JNum 6), (''required'', JBool True)],
           [(''name'', JStr ''reason''), (''type'', JNum 3), (''autocomplete'', JBool True)]]"
    using ys by simp
  moreover have "optionsTransformer report_module = None"
    using optionsTransformer_strips_flagged [of report_module "[]" "''name''"] ctx by blast
  ultimately show ?thesis by simp
qed

text \<open>
  The claim as written fails: an option that carries a handler but no truthy
  \<^verbatim>\<open>autocomplete\<close> flag keeps the handler.
\<close>

theorem optionsTransformer_keeps_unflagged_handler:
  "m_type stray_handler_module = CommandType_Slash
   \<and> m_options stray_handler_module = Some [[(''name'', JStr ''query''), (''command'', JFunc 1)]]
   \<and> optionsTransformer stray_handler_module =
       Some [[(''name'', JStr ''query''), (''command'', JFunc 1)]]"
  by code_simp

section \<open>The publishability classifier\<close>

text \<open>
  C7, as the code has it. The classifier reads the type only, as a bit mask: it is true
  exactly when the type has one of the bits of Slash, CtxUser and CtxMsg (bits 1 to 3).
  Among the values of the library's enumeration that is exactly Slash, Both, CtxUser and
  CtxMsg, so Text is refused. A module classified false is skipped: the pass issues no
  call for it, and leaves the world as it was.
\<close>

theorem publishable_is_bit_mask:
  "(publishable m \<longleftrightarrow> (m_type m AND 14) \<noteq> 0)
   \<and> (\<forall>t \<in> set CommandType_values.
         publishable (m\<lparr>m_type := t\<rparr>) \<longleftrightarrow>
           t \<in> {CommandType_Slash, CommandType_Both, CommandType_CtxUser, CommandType_CtxMsg})
   \<and> (ld (''file:///'' @ path) = Inr m \<and> \<not> publishable m \<longrightarrow>
        sync_files flt ld scopedGuilds [path] w = (Inr (), w))
   \<and> sync_files flt ld scopedGuilds paths w =
       sync_files flt ld scopedGuilds
         (filter (\<lambda>p. case ld (''file:///'' @ p) of Inl e \<Rightarrow> True | Inr m' \<Rightarrow> publishable m')
            paths) w"
proof -
  have "\<forall>t \<in> set CommandType_values.
         publishable (m\<lparr>m_type := t\<rparr>) \<longleftrightarrow>
           t \<in> {CommandType_Slash, CommandType_Both, CommandType_CtxUser, CommandType_CtxMsg}"
    by (simp add: publishable_mask CommandType_values_def CommandType_defs)
  moreover have "ld (''file:///'' @ path) = Inr m \<and> \<not> publishable m \<longrightarrow>
        sync_files flt ld scopedGuilds [path] w = (Inr (), w)"
    by (simp add: await_def import_default_def resolved_def)
  ultimately show ?thesis
    using publishable_mask [of m] sync_files_skip [of flt ld scopedGuilds paths w] by blast
qed

theorem publishable_is_bit_mask_witness:
  "\<not> publishable prefix_module
   \<and> publishable (prefix_module\<lparr>m_type := CommandType_CtxUser\<rparr>)
   \<and> sync_files no_faults commands_loader [] [''/bot/dist/src/commands/eval.js''] empty_world
       = (Inr (), empty_world)"
proof -
  have ld: "commands_loader (''file:///'' @ ''/bot/dist/src/commands/eval.js'') = Inr prefix_module"
    by (simp add: commands_loader_def)
  have mask: "(m_type prefix_module AND 14) = 0"
    by (simp add: prefix_module_def CommandType_defs)
  have mem: "CommandType_CtxUser \<in> set CommandType_values"
    by (simp add: CommandType_values_def)
  note inst = publishable_is_bit_mask
    [of prefix_module commands_loader "''/bot/dist/src/commands/eval.js''" no_faults "[]"
        empty_world "[]"]
  from inst mask have np: "\<not> publishable prefix_module" by blast
  moreover from inst mem have "publishable (prefix_module\<lparr>m_type := CommandType_CtxUser\<rparr>)"
    by blast
  moreover from inst ld np
  have "sync_files no_faults commands_loader [] [''/bot/dist/src/commands/eval.js''] empty_world
       = (Inr (), empty_world)"
    by blast
  ultimately show ?thesis by blast
qed

text \<open>
  The claim as written fails on a type outside the enumeration: 6 is no value of
  \<^verbatim>\<open>CommandType\<close>, and a module of that type is classified publishable.
\<close>

theorem publishable_accepts_unknown_kind:
  "m_type unknown_kind_module \<notin> set CommandType_values
   \<and> publishable unknown_kind_module"
  by code_simp

section \<open>Two passes in a row\<close>

text \<open>
  C8, as the code has it. Let the remote ids be unique in every registry, and let a first
  pass complete. A second pass over the same definitions, started from the world the
  first one left, issues no create call; if it completes too, it issues exactly one edit
  call for every publishable definition on every target, so every definition is updated;
  and every registry holds the same names, hence the same number of entries, after the
  second pass as after the first.
\<close>

theorem second_pass_only_edits:
  assumes "world_ok w"
    and "sync flt ld fs scopedGuilds w = (Inr (), w1)"
    and "sync flt ld fs scopedGuilds w1 = (r, w2)"
  shows "filter is_create (issued w1 w2) = []
         \<and> (r = Inr () \<longrightarrow>
              length (filter is_edit (issued w1 w2)) =
                length (publishable_paths ld (fst (discovered fs))) * length (targets scopedGuilds))
         \<and> entry_names t w2 = entry_names t w1
         \<and> length (entry_names t w2) = length (entry_names t w1)"
proof -
  note step = pass_step_sync [of ld scopedGuilds fs flt]
  have ok1: "world_ok w1"
    using pass_stepD(1) [OF step assms(2,1)] .
  have p1: "present (required ld scopedGuilds (fst (discovered fs))) w1"
    using pass_stepD(3) [OF step assms(2,1)] by simp
  from pass_stepD(5) [OF step assms(3) ok1 p1]
  obtain cs where cs: "calls w2 = calls w1 @ cs" "filter is_create cs = []"
    "r = Inr () \<longrightarrow> length (filter is_edit cs) =
       length (required ld scopedGuilds (fst (discovered fs)))"
    by blast
  have "issued w1 w2 = cs"
    using cs(1) by (simp add: issued_def)
  moreover have "entry_names t w2 = entry_names t w1"
    using pass_stepD(4) [OF step assms(3) ok1 p1] .
  ultimately show ?thesis
    using cs(2,3) by (simp add: length_required)
qed

theorem second_pass_only_edits_witness:
  "filter is_create (issued first_pass second_pass) = []
   \<and> length (filter is_edit (issued first_pass second_pass)) = 4
   \<and> entry_names (Some ''g2'') second_pass = [''ping'', ''ban'']
   \<and> length (entry_names (Some ''g2'') second_pass) = length (entry_names (Some ''g2'') first_pass)"
proof -
  have ok: "world_ok world_g1_g2"
    by code_simp
  have "fst (sync no_faults commands_loader commands_fs [''g1'', ''g2''] world_g1_g2) = Inr ()"
    by code_simp
  then have run1: "sync no_faults commands_loader commands_fs [''g1'', ''g2''] world_g1_g2 =
      (Inr (), first_pass)"
    unfolding first_pass_def by (metis prod.collapse)
  have r2: "fst (sync no_faults commands_loader commands_fs [''g1'', ''g2''] first_pass) = Inr ()"
    by code_simp
  then have run2: "sync no_faults commands_loader commands_fs [''g1'', ''g2''] first_pass =
      (Inr (), second_pass)"
    unfolding second_pass_def by (metis prod.collapse)
  have n: "length (publishable_paths commands_loader (fst (discovered commands_fs)))
      * length (targets [''g1'', ''g2'']) = 4"
    by code_simp
  have names: "entry_names (Some ''g2'') first_pass = [''ping'', ''ban'']"
    by code_simp
  from second_pass_only_edits [OF ok run1 run2, of "Some ''g2''"] n names
  show ?thesis by simp
qed

text \<open>
  The claim as written fails when the first pass does not complete. After a first pass
  that ended at a rejected create call, the second pass creates the command, and the
  registry grows from no entry to one. And with an unknown guild in the scope and no
  rejection by the remote at all, both passes end at that guild: the second pass edits
  the first of two publishable definitions and never reaches the other.
\<close>

theorem second_pass_after_incomplete_first:
  "fst flaky_first = Inl (JError ''Missing Access'')
   \<and> fst flaky_second = Inr ()
   \<and> issued (snd flaky_first) (snd flaky_second) =
       [CommandsFetch None,
        CommandsCreate None
          \<lparr>d_name = Some ''ping'', d_description = Some ''..'', d_type = ChatInput,
           d_options = Some []\<rparr>]
   \<and> length (entry_names None (snd flaky_first)) = 0
   \<and> length (entry_names None (snd flaky_second)) = 1
   \<and> publishable_paths commands_loader (fst (discovered commands_fs)) =
       [''/bot/dist/src/commands/ping.js'', ''/bot/dist/src/commands/mod/ban.js'']
   \<and> fst abort_first = Inl (JError ''Found no Guild with id g9!'')
   \<and> fst abort_second = Inl (JError ''Found no Guild with id g9!'')
   \<and> filter is_edit (issued (snd abort_first) (snd abort_second)) =
       [CommandEdit (Some ''g2'') 0
          \<lparr>d_name = None, d_description = None, d_type = ChatInput, d_options = Some []\<rparr>]
   \<and> entry_names (Some ''g2'') (snd abort_second) = [''ping'']"
  by code_simp

section \<open>Name resolution\<close>

text \<open>
  C9, as the code has it. A module without a name of its own is looked up and registered
  under the base name of its file with the last three characters removed. For a file
  whose extension is a dot and two characters, such as \<^verbatim>\<open>ping.js\<close>, that is the base
  name without the extension.
\<close>

theorem resolveName_drops_three_characters:
  "m_name m = None \<Longrightarrow>
     resolveName m path = take (length (basename path) - 3) (basename path)
     \<and> (\<forall>stem a b. basename path = stem @ [CHR ''.'', a, b] \<longrightarrow> resolveName m path = stem)
     \<and> (CHR ''/'' \<notin> set fname \<and> CHR ''?'' \<notin> set fname \<and> fname \<noteq> [] \<longrightarrow>
          basename (dir @ ''/'' @ fname) = fname)"
  using basename_file [of fname dir]
  by (auto simp: resolveName_def or_else_def slice_0_minus3_def)

theorem resolveName_drops_three_characters_witness:
  "resolveName ping_module ''/bot/dist/src/commands/ping.js'' = ''ping''"
proof -
  have nameless: "m_name ping_module = None"
    by (simp add: ping_module_def)
  have fname: "CHR ''/'' \<notin> set ''ping.js'' \<and> CHR ''?'' \<notin> set ''ping.js'' \<and> ''ping.js'' \<noteq> []"
    by simp
  note inst = resolveName_drops_three_characters
    [OF nameless, of "''/bot/dist/src/commands/ping.js''" "''ping.js''" "''/bot/dist/src/commands''"]
  from inst fname have "basename (''/bot/dist/src/commands'' @ ''/'' @ ''ping.js'') = ''ping.js''"
    by blast
  then have "basename ''/bot/dist/src/commands/ping.js'' = ''ping'' @ [CHR ''.'', CHR ''j'', CHR ''s'']"
    by simp
  with inst show ?thesis by blast
qed

text \<open>
  The claim as written fails for a longer extension: the nameless module of
  \<^verbatim>\<open>ping.mjs\<close> is registered as \<^verbatim>\<open>ping.\<close>, not as \<^verbatim>\<open>ping\<close>.
\<close>

theorem resolveName_keeps_part_of_long_extension:
  "m_name ping_module = None
   \<and> basename ''/bot/dist/src/commands/ping.mjs'' = ''ping.mjs''
   \<and> resolveName ping_module ''/bot/dist/src/commands/ping.mjs'' = ''ping.''"
  by code_simp

section \<open>The constructor\<close>

text \<open>
  C10. The constructor lets no rejection of the pass through: its result is the world the
  pass left, with one more error line exactly when the pass was rejected (the reason, or
  the text \<^verbatim>\<open>Something went wrong with syncing\<close> for a nullish reason), the pass itself
  logging no error, and then, in either case, the info line
  \<^verbatim>\<open>Commands synced successfully\<close> as the last line. No remote call is added.
\<close>

theorem CommandSyncer_reports_and_finishes:
  "logs (CommandSyncer flt ld fs scopedGuilds w) =
     logs (snd (sync flt ld fs scopedGuilds w))
     @ (case fst (sync flt ld fs scopedGuilds w) of
          Inl e \<Rightarrow> [LogError (coalesce e (JStr ''Something went wrong with syncing''))]
        | Inr u \<Rightarrow> [])
     @ [LogInfo ''Commands synced successfully'']
   \<and> filter is_error (logs (CommandSyncer flt ld fs scopedGuilds w)) =
       filter is_error (logs w)
       @ (case fst (sync flt ld fs scopedGuilds w) of
            Inl e \<Rightarrow> [LogError (coalesce e (JStr ''Something went wrong with syncing''))]
          | Inr u \<Rightarrow> [])
   \<and> last (logs (CommandSyncer flt ld fs scopedGuilds w)) =
       LogInfo ''Commands synced successfully''
   \<and> calls (CommandSyncer flt ld fs scopedGuilds w) = calls (snd (sync flt ld fs scopedGuilds w))"
proof -
  obtain r w' where run: "sync flt ld fs scopedGuilds w = (r, w')"
    by (cases "sync flt ld fs scopedGuilds w")
  have "filter is_error (logs w') = filter is_error (logs w)"
    using quiet_sync run unfolding quiet_def by blast
  then show ?thesis
    using run by (cases r) (simp_all add: CommandSyncer_def await_def log_line_def)
qed

theorem CommandSyncer_reports_and_finishes_witness:
  "filter is_error (logs (CommandSyncer no_faults commands_loader ping_fs [''g1'', ''g2''] world_g2)) =
     [LogError (JError ''Found no Guild with id g1!'')]
   \<and> last (logs (CommandSyncer no_faults commands_loader ping_fs [''g1'', ''g2''] world_g2)) =
       LogInfo ''Commands synced successfully''"
proof -
  have "fst (sync no_faults commands_loader ping_fs [''g1'', ''g2''] world_g2) =
      Inl (JError ''Found no Guild with id g1!'')"
    by code_simp
  moreover have "filter is_error (logs world_g2) = []"
    by code_simp
  moreover have "coalesce (JError ''Found no Guild with id g1!'')
      (JStr ''Something went wrong with syncing'') = JError ''Found no Guild with id g1!''"
    by code_simp
  moreover note inst = CommandSyncer_reports_and_finishes
      [of no_faults commands_loader ping_fs "[''g1'', ''g2'']" world_g2]
  ultimately show ?thesis
    using inst [THEN conjunct2, THEN conjunct1] inst [THEN conjunct2, THEN conjunct2, THEN conjunct1]
    by simp
qed

end
